theory Spec2Isabelle
  imports Main
begin

section \<open>Data model of \<^verbatim>\<open>packages/reactivity/src/effect.ts\<close>\<close>

text \<open>
  Objects of the JavaScript heap are addressed by natural numbers:
  an \<open>eid\<close> names a \<^verbatim>\<open>ReactiveEffect\<close> instance, a \<open>tid\<close> an observed target object and a
  \<open>did\<close> a \<^verbatim>\<open>Dep\<close>, that is a \<^verbatim>\<open>Set<ReactiveEffect>\<close>. A \<^verbatim>\<open>Set\<close> iterates in insertion order, so
  its contents are a duplicate-free list. The same \<^verbatim>\<open>Set\<close> object is reachable from
  \<^verbatim>\<open>targetMap\<close> and from the \<^verbatim>\<open>deps\<close> arrays of its members, hence the explicit store
  \<open>depStore\<close>.
\<close>

type_synonym eid = nat
type_synonym tid = nat
type_synonym did = nat

text \<open>Property keys: strings and symbols. \<^verbatim>\<open>ITERATE_KEY = Symbol('iterate')\<close>.\<close>

datatype key = Str string | Sym nat

definition ITERATE_KEY :: key where
  "ITERATE_KEY = Sym 0"

text \<open>
  Modelled from the spec: the enumeration \<^verbatim>\<open>TriggerOpTypes\<close> of \<^verbatim>\<open>./operations\<close>, which is
  not among the sources; the spec lists the operation kinds add, set, delete and clear.
\<close>

datatype TriggerOpTypes = ADD | SET | DELETE | CLEAR

text \<open>
  The helpers \<^verbatim>\<open>isArray\<close>, \<^verbatim>\<open>isIntegerKey\<close> and \<^verbatim>\<open>isObject\<close> are imported from
  \<^verbatim>\<open>@my-vue/shared\<close>, which is not among the sources: they are parameters of the model.
\<close>

record shared =
  isArray :: "tid \<Rightarrow> bool"
  isIntegerKey :: "key \<Rightarrow> bool"
  isObject :: "tid \<Rightarrow> bool"

text \<open>
  The callables the engine receives (\<^verbatim>\<open>fn\<close>, \<^verbatim>\<open>scheduler\<close>, \<^verbatim>\<open>onStop\<close>) are closures that may
  call back into every exported function of the module. Their bodies are terms of a small
  command language: the calls into the engine, sequencing, \<^verbatim>\<open>throw\<close>, and two observable
  actions on the caller's own variables (appending to a log, and a boolean flag that can be
  assigned and branched on). The value a callable returns is not modelled.
\<close>

datatype cmd =
    Skip
  | Seq cmd cmd
  | Throw
  | Emit nat
  | Assign nat bool
  | IfFlag nat cmd cmd
  | Track tid key
  | Trigger tid TriggerOpTypes key "int option" "int option"
  | Run eid
  | Stop eid
  | PauseTracking
  | ResetTracking

text \<open>
  The class \<^verbatim>\<open>ReactiveEffect\<close>. The fields the module itself assigns after construction
  (\<^verbatim>\<open>active\<close>, \<^verbatim>\<open>deps\<close>, \<^verbatim>\<open>parent\<close>, \<^verbatim>\<open>deferStop\<close>) live in the mutable store; the fields it only
  reads (\<^verbatim>\<open>fn\<close>, \<^verbatim>\<open>scheduler\<close>, \<^verbatim>\<open>computed\<close>, \<^verbatim>\<open>onStop\<close>) are fixed per instance in a table of
  declarations. \<open>computed\<close> is \<open>True\<close> when the optional field holds a \<^verbatim>\<open>ComputedRefImpl\<close>.
\<close>

record ReactiveEffect =
  active :: bool
  deps :: "did list"
  parent :: "eid option"
  deferStop :: bool

record EffectDecl =
  fn :: cmd
  scheduler :: "cmd option"
  computed :: bool
  onStop :: "cmd option"

type_synonym program = "eid \<Rightarrow> EffectDecl"

text \<open>
  The module state: the globals \<^verbatim>\<open>targetMap\<close>, \<^verbatim>\<open>activeEffect\<close>, \<^verbatim>\<open>shouldTrack\<close>, the store of
  effect instances, the store of \<^verbatim>\<open>Set\<close> objects with its allocation pointer, and the
  variables of the calling program.
\<close>

record state =
  targetMap :: "tid \<Rightarrow> (key \<Rightarrow> did option) option"
  activeEffect :: "eid option"
  shouldTrack :: bool
  effects :: "eid \<Rightarrow> ReactiveEffect"
  depStore :: "did \<Rightarrow> eid list"
  nextDep :: did
  userLog :: "nat list"
  userFlags :: "nat \<Rightarrow> bool"

text \<open>
  How a call ends: it returns, it throws, or it has not finished within the fuel given
  to the interpreter. A thrown exception carries the state it leaves behind.
\<close>

datatype outcome = Returned state | Thrown state | Diverged

type_synonym callback = "cmd \<Rightarrow> state \<Rightarrow> outcome"

definition and_then :: "outcome \<Rightarrow> (state \<Rightarrow> outcome) \<Rightarrow> outcome" where
  "and_then r k = (case r of Returned s \<Rightarrow> k s | Thrown s \<Rightarrow> Thrown s | Diverged \<Rightarrow> Diverged)"

definition upd_effect :: "eid \<Rightarrow> (ReactiveEffect \<Rightarrow> ReactiveEffect) \<Rightarrow> state \<Rightarrow> state" where
  "upd_effect e f s = s\<lparr>effects := (effects s)(e := f (effects s e))\<rparr>"

text \<open>\<^verbatim>\<open>Set.prototype.add\<close> and \<^verbatim>\<open>Set.prototype.delete\<close> on the insertion-ordered contents.\<close>

definition set_add :: "eid \<Rightarrow> eid list \<Rightarrow> eid list" where
  "set_add e xs = (if e \<in> set xs then xs else xs @ [e])"

definition set_delete :: "eid \<Rightarrow> eid list \<Rightarrow> eid list" where
  "set_delete e xs = removeAll e xs"

section \<open>Tracking\<close>

definition pauseTracking :: "state \<Rightarrow> state" where
  "pauseTracking s = s\<lparr>shouldTrack := False\<rparr>"

definition resetTracking :: "state \<Rightarrow> state" where
  "resetTracking s = s\<lparr>shouldTrack := True\<rparr>"

definition trackEffects :: "did \<Rightarrow> state \<Rightarrow> state" where
  "trackEffects dep s =
     (case activeEffect s of
        None \<Rightarrow> s
      | Some e \<Rightarrow>
          upd_effect e (\<lambda>r. r\<lparr>deps := deps r @ [dep]\<rparr>)
            (s\<lparr>depStore := (depStore s)(dep := set_add e (depStore s dep))\<rparr>))"

definition track :: "tid \<Rightarrow> key \<Rightarrow> state \<Rightarrow> state" where
  "track target k s =
     (if shouldTrack s \<and> activeEffect s \<noteq> None then
        let (depsMap, s1) =
              (case targetMap s target of
                 Some m \<Rightarrow> (m, s)
               | None \<Rightarrow> (Map.empty, s\<lparr>targetMap := (targetMap s)(target \<mapsto> Map.empty)\<rparr>));
            (dep, s2) =
              (case depsMap k of
                 Some d \<Rightarrow> (d, s1)
               | None \<Rightarrow>
                   (nextDep s1,
                    s1\<lparr>targetMap := (targetMap s1)(target \<mapsto> depsMap(k \<mapsto> nextDep s1)),
                       depStore := (depStore s1)(nextDep s1 := []),
                       nextDep := Suc (nextDep s1)\<rparr>))
        in trackEffects dep s2
      else s)"

definition cleanupEffect :: "eid \<Rightarrow> state \<Rightarrow> state" where
  "cleanupEffect e s =
     upd_effect e (\<lambda>r. r\<lparr>deps := []\<rparr>)
       (s\<lparr>depStore := fold (\<lambda>d h. h(d := set_delete e (h d))) (deps (effects s e)) (depStore s)\<rparr>)"

section \<open>The effect lifecycle\<close>

text \<open>
  \<open>call\<close> is how a callable of the program is invoked; the interpreter \<open>exec\<close> below ties
  the knot. \<^verbatim>\<open>stop\<close>: deferred when the node is the current one, otherwise purge, \<^verbatim>\<open>onStop\<close>,
  \<^verbatim>\<open>active = false\<close>.
\<close>

definition stop :: "callback \<Rightarrow> program \<Rightarrow> eid \<Rightarrow> state \<Rightarrow> outcome" where
  "stop call P e s =
     (if activeEffect s = Some e then Returned (upd_effect e (\<lambda>r. r\<lparr>deferStop := True\<rparr>) s)
      else
        and_then
          (case onStop (P e) of
             None \<Rightarrow> Returned (cleanupEffect e s)
           | Some c \<Rightarrow> call c (cleanupEffect e s))
          (\<lambda>s1. Returned (upd_effect e (\<lambda>r. r\<lparr>active := False\<rparr>) s1)))"

text \<open>
  The \<^verbatim>\<open>finally\<close> block of \<^verbatim>\<open>run\<close>, entered in state \<open>s\<close>; \<open>k\<close> is how the \<^verbatim>\<open>try\<close> block
  ended (\<open>Returned\<close> or \<open>Thrown\<close>). An exception of the block itself replaces it.
\<close>

definition run_finally ::
  "callback \<Rightarrow> program \<Rightarrow> eid \<Rightarrow> (state \<Rightarrow> outcome) \<Rightarrow> state \<Rightarrow> outcome" where
  "run_finally call P e k s =
     (let s1 = s\<lparr>activeEffect := parent (effects s e)\<rparr>;
          s2 = upd_effect e (\<lambda>r. r\<lparr>parent := None\<rparr>) s1
      in if deferStop (effects s2 e) then
           and_then (stop call P e s2)
             (\<lambda>s3. k (upd_effect e (\<lambda>r. r\<lparr>deferStop := False\<rparr>) s3))
         else k s2)"

text \<open>The state in which \<^verbatim>\<open>run\<close> calls \<^verbatim>\<open>this.fn()\<close> on an active node.\<close>

definition run_enter :: "eid \<Rightarrow> state \<Rightarrow> state" where
  "run_enter e s =
     cleanupEffect e
       ((upd_effect e (\<lambda>r. r\<lparr>parent := activeEffect s\<rparr>) s)
          \<lparr>activeEffect := Some e, shouldTrack := True\<rparr>)"

definition run :: "callback \<Rightarrow> program \<Rightarrow> eid \<Rightarrow> state \<Rightarrow> outcome" where
  "run call P e s =
     (if \<not> active (effects s e) then call (fn (P e)) s
      else
        (case call (fn (P e)) (run_enter e s) of
           Returned s2 \<Rightarrow> run_finally call P e Returned s2
         | Thrown s2 \<Rightarrow> run_finally call P e Thrown s2
         | Diverged \<Rightarrow> Diverged))"

section \<open>Notification\<close>

definition triggerEffect :: "callback \<Rightarrow> program \<Rightarrow> eid \<Rightarrow> state \<Rightarrow> outcome" where
  "triggerEffect call P e s =
     (if activeEffect s \<noteq> Some e then
        (case scheduler (P e) of
           Some c \<Rightarrow> call c s
         | None \<Rightarrow> run call P e s)
      else Returned s)"

text \<open>
  One \<^verbatim>\<open>for\<close> loop of \<^verbatim>\<open>triggerEffects\<close> over the array \<^verbatim>\<open>effects\<close>: the first loop takes the
  nodes with \<^verbatim>\<open>computed\<close> set (\<open>want = True\<close>), the second the others.
\<close>

fun notify_loop :: "callback \<Rightarrow> program \<Rightarrow> bool \<Rightarrow> eid list \<Rightarrow> state \<Rightarrow> outcome" where
  "notify_loop call P want [] s = Returned s"
| "notify_loop call P want (e # es) s =
     (if computed (P e) = want then
        and_then (triggerEffect call P e s) (notify_loop call P want es)
      else notify_loop call P want es s)"

text \<open>\<open>dep\<close> is the content of the \<^verbatim>\<open>Set\<close> passed in, as \<^verbatim>\<open>[...dep]\<close> lists it.\<close>

definition triggerEffects :: "callback \<Rightarrow> program \<Rightarrow> eid list \<Rightarrow> state \<Rightarrow> outcome" where
  "triggerEffects call P dep s =
     and_then (notify_loop call P True dep s) (notify_loop call P False dep)"

text \<open>
  \<^verbatim>\<open>(i - 1) + ''\<close>: the decimal numeral of an integer, as JavaScript prints every integer
  below \<open>10\<^sup>2\<^sup>1\<close> in absolute value.
\<close>

definition digit_char :: "nat \<Rightarrow> char" where
  "digit_char n = ''0123456789'' ! n"

function string_of_nat :: "nat \<Rightarrow> string" where
  "string_of_nat n =
     (if n < 10 then [digit_char n] else string_of_nat (n div 10) @ [digit_char (n mod 10)])"
  by pat_completeness auto
termination
  by (relation "measure (\<lambda>n. n)") auto

declare string_of_nat.simps [simp del]

definition number_to_string :: "int \<Rightarrow> string" where
  "number_to_string i =
     (if i < 0 then CHR ''-'' # string_of_nat (nat (- i)) else string_of_nat (nat i))"

text \<open>
  The loop \<^verbatim>\<open>for (let i = newValue; i < oldValue; i++) deps.push(depsMap.get((i - 1) + ''))\<close>,
  from the current value of \<open>i\<close>.
\<close>

function length_loop :: "(key \<Rightarrow> did option) \<Rightarrow> int \<Rightarrow> int \<Rightarrow> did option list" where
  "length_loop depsMap i oldValue =
     (if i < oldValue then
        depsMap (Str (number_to_string (i - 1))) # length_loop depsMap (i + 1) oldValue
      else [])"
  by pat_completeness auto
termination
  by (relation "measure (\<lambda>(depsMap, i, oldValue). nat (oldValue - i))") auto

declare length_loop.simps [simp del]

text \<open>
  The local array \<^verbatim>\<open>deps\<close> of \<^verbatim>\<open>trigger\<close>. \<^verbatim>\<open>newValue\<close> and \<^verbatim>\<open>oldValue\<close> are optional; they are
  integers when present, and a comparison with \<^verbatim>\<open>undefined\<close> is false, so the loop body
  does not run when either is absent.
\<close>

definition trigger_deps ::
  "shared \<Rightarrow> (key \<Rightarrow> did option) \<Rightarrow> tid \<Rightarrow> TriggerOpTypes \<Rightarrow> key \<Rightarrow> int option \<Rightarrow> int option
     \<Rightarrow> did option list" where
  "trigger_deps sh depsMap target type k newValue oldValue =
     [depsMap k]
     @ (if isArray sh target \<and> k = Str ''length'' then
          (case (newValue, oldValue) of
             (Some n, Some ov) \<Rightarrow> length_loop depsMap n ov
           | _ \<Rightarrow> [])
        else [])
     @ (if type = ADD then
          (if isArray sh target \<and> isIntegerKey sh k then [depsMap (Str ''length'')]
           else if isObject sh target then [depsMap ITERATE_KEY]
           else [])
        else [])"

text \<open>The local \<^verbatim>\<open>Set\<close> \<^verbatim>\<open>dep\<close> of \<^verbatim>\<open>trigger\<close>: the members of the sets found, deduplicated.\<close>

definition union_deps :: "(did \<Rightarrow> eid list) \<Rightarrow> did option list \<Rightarrow> eid list" where
  "union_deps store ds =
     fold (\<lambda>d acc. case d of None \<Rightarrow> acc | Some a \<Rightarrow> fold set_add (store a) acc) ds []"

definition trigger ::
  "callback \<Rightarrow> shared \<Rightarrow> program \<Rightarrow> tid \<Rightarrow> TriggerOpTypes \<Rightarrow> key \<Rightarrow> int option \<Rightarrow> int option
     \<Rightarrow> state \<Rightarrow> outcome" where
  "trigger call sh P target type k newValue oldValue s =
     (case targetMap s target of
        None \<Rightarrow> Returned s
      | Some depsMap \<Rightarrow>
          triggerEffects call P
            (union_deps (depStore s) (trigger_deps sh depsMap target type k newValue oldValue)) s)"

section \<open>Running the callables\<close>

text \<open>
  The interpreter of callable bodies. A computation may notify itself through other nodes
  for ever, so the interpreter takes fuel: every nested call costs one unit, and
  \<open>Diverged\<close> says the fuel did not suffice.
\<close>

primrec exec :: "shared \<Rightarrow> program \<Rightarrow> nat \<Rightarrow> cmd \<Rightarrow> state \<Rightarrow> outcome" where
  "exec sh P 0 c s = Diverged"
| "exec sh P (Suc n) c s =
     (case c of
        Skip \<Rightarrow> Returned s
      | Seq a b \<Rightarrow> and_then (exec sh P n a s) (exec sh P n b)
      | Throw \<Rightarrow> Thrown s
      | Emit x \<Rightarrow> Returned (s\<lparr>userLog := userLog s @ [x]\<rparr>)
      | Assign v b \<Rightarrow> Returned (s\<lparr>userFlags := (userFlags s)(v := b)\<rparr>)
      | IfFlag v a b \<Rightarrow> exec sh P n (if userFlags s v then a else b) s
      | Track target k \<Rightarrow> Returned (track target k s)
      | Trigger target type k newValue oldValue \<Rightarrow>
          trigger (exec sh P n) sh P target type k newValue oldValue s
      | Run e \<Rightarrow> run (exec sh P n) P e s
      | Stop e \<Rightarrow> stop (exec sh P n) P e s
      | PauseTracking \<Rightarrow> Returned (pauseTracking s)
      | ResetTracking \<Rightarrow> Returned (resetTracking s))"

text \<open>
  The state of a freshly loaded module in which every node has just been constructed
  (\<^verbatim>\<open>active = true\<close>, \<^verbatim>\<open>deps = []\<close>, \<^verbatim>\<open>parent = undefined\<close>, \<^verbatim>\<open>deferStop = false\<close>). Nodes
  are not created while a program runs: the registration function \<^verbatim>\<open>effect\<close> and its options
  are not modelled, and the exported \<^verbatim>\<open>stop(runner)\<close> is \<^verbatim>\<open>stop\<close> of the runner's node. Entries of
  the weak map \<^verbatim>\<open>targetMap\<close> are never collected.
\<close>

definition init_state :: state where
  "init_state =
     \<lparr>targetMap = Map.empty, activeEffect = None, shouldTrack = True,
      effects = (\<lambda>e. \<lparr>active = True, deps = [], parent = None, deferStop = False\<rparr>),
      depStore = (\<lambda>d. []), nextDep = 0, userLog = [], userFlags = (\<lambda>v. False)\<rparr>"

section \<open>Notions of the specification\<close>

text \<open>
  The notification order the specification prescribes: first every node marked as
  derived, then every remaining node, each list in the order of the collection; and
  notification of a list of nodes one after the other.
\<close>

definition notification_order :: "program \<Rightarrow> eid list \<Rightarrow> eid list" where
  "notification_order P dep =
     filter (\<lambda>e. computed (P e)) dep @ filter (\<lambda>e. \<not> computed (P e)) dep"

fun notify_in_order :: "callback \<Rightarrow> program \<Rightarrow> eid list \<Rightarrow> state \<Rightarrow> outcome" where
  "notify_in_order call P [] s = Returned s"
| "notify_in_order call P (e # es) s =
     and_then (triggerEffect call P e s) (notify_in_order call P es)"

text \<open>
  Along a notification of the list \<open>xs\<close> from state \<open>s\<close>, every notification of a node
  other than \<open>e\<close> that returns leaves \<open>e\<close> the current node.
\<close>

fun others_keep_current :: "callback \<Rightarrow> program \<Rightarrow> eid \<Rightarrow> eid list \<Rightarrow> state \<Rightarrow> bool" where
  "others_keep_current call P e [] s = True"
| "others_keep_current call P e (x # xs) s =
     (if x = e then others_keep_current call P e xs s
      else
        (case triggerEffect call P x s of
           Returned s1 \<Rightarrow> activeEffect s1 = Some e \<and> others_keep_current call P e xs s1
         | Thrown s1 \<Rightarrow> True
         | Diverged \<Rightarrow> True))"

text \<open>
  One half of the specification's first invariant: every set that contains node \<open>e\<close> is
  in the subscription list of \<open>e\<close>.
\<close>

definition subscriptions_cover :: "state \<Rightarrow> eid \<Rightarrow> bool" where
  "subscriptions_cover s e = (\<forall>d. e \<in> set (depStore s d) \<longrightarrow> d \<in> set (deps (effects s e)))"

definition subs_consistent :: "state \<Rightarrow> bool" where
  "subs_consistent s = (\<forall>e. subscriptions_cover s e)"


text \<open>A property of the state a call leaves behind, when it ends.\<close>

definition outcome_all :: "(state \<Rightarrow> bool) \<Rightarrow> outcome \<Rightarrow> bool" where
  "outcome_all I r = (case r of Returned s \<Rightarrow> I s | Thrown s \<Rightarrow> I s | Diverged \<Rightarrow> True)"

text \<open>
  A state property that every assignment the module makes preserves: the two state
  transformers of tracking, the assignments to the fields of a node and to the globals,
  and the program's assignments to its own variables.
\<close>

definition engine_invariant :: "(state \<Rightarrow> bool) \<Rightarrow> bool" where
  "engine_invariant I =
     (\<forall>s. I s \<longrightarrow>
        (\<forall>t k. I (track t k s)) \<and>
        (\<forall>e. I (cleanupEffect e s)) \<and>
        (\<forall>e x. I (upd_effect e (\<lambda>r. r\<lparr>parent := x\<rparr>) s)) \<and>
        (\<forall>e b. I (upd_effect e (\<lambda>r. r\<lparr>active := b\<rparr>) s)) \<and>
        (\<forall>e b. I (upd_effect e (\<lambda>r. r\<lparr>deferStop := b\<rparr>) s)) \<and>
        (\<forall>x. I (s\<lparr>activeEffect := x\<rparr>)) \<and>
        (\<forall>b. I (s\<lparr>shouldTrack := b\<rparr>)) \<and>
        (\<forall>l. I (s\<lparr>userLog := l\<rparr>)) \<and>
        (\<forall>f. I (s\<lparr>userFlags := f\<rparr>)))"

text \<open>
  \<open>call'\<close> agrees with \<open>call\<close> wherever \<open>call\<close> ends: the relation between the interpreter
  on some fuel and on more fuel.
\<close>

definition extends :: "callback \<Rightarrow> callback \<Rightarrow> bool" where
  "extends call call' = (\<forall>c s. call c s \<noteq> Diverged \<longrightarrow> call' c s = call c s)"

section \<open>Example programs\<close>

text \<open>
  In the examples target \<open>1\<close> is an array and target \<open>2\<close> a plain object; an integer key is
  a non-empty string of decimal digits.
\<close>

definition demo_shared :: shared where
  "demo_shared =
     \<lparr>isArray = (\<lambda>t. t = 1),
      isIntegerKey =
        (\<lambda>k. case k of Str x \<Rightarrow> x \<noteq> [] \<and> list_all (\<lambda>c. c \<in> set ''0123456789'') x | Sym n \<Rightarrow> False),
      isObject = (\<lambda>t. True)\<rparr>"

definition key_map :: "state \<Rightarrow> tid \<Rightarrow> key \<Rightarrow> did option" where
  "key_map s t = (case targetMap s t of None \<Rightarrow> Map.empty | Some m \<Rightarrow> m)"

definition outcome_state :: "outcome \<Rightarrow> state" where
  "outcome_state r = (case r of Returned s \<Rightarrow> s | Thrown s \<Rightarrow> s | Diverged \<Rightarrow> init_state)"

definition is_returned :: "outcome \<Rightarrow> bool" where
  "is_returned r = (case r of Returned s \<Rightarrow> True | Thrown s \<Rightarrow> False | Diverged \<Rightarrow> False)"


text \<open>
  Sequence truncation: node \<open>e\<close> for \<open>e = 0, \<dots>, 4\<close> reads index \<open>e\<close> of the array, node \<open>5\<close>
  reads \<^verbatim>\<open>length\<close>; each logs its number. \<open>truncation_state\<close> is the state after all six
  have run once.
\<close>

definition truncation_prog :: program where
  "truncation_prog e =
     \<lparr>fn = Seq (Track 1 (if e = 5 then Str ''length'' else Str (number_to_string (int e)))) (Emit e),
      scheduler = None, computed = False, onStop = None\<rparr>"

definition truncation_state :: state where
  "truncation_state =
     outcome_state
       (exec demo_shared truncation_prog 12
          (Seq (Run 0) (Seq (Run 1) (Seq (Run 2) (Seq (Run 3) (Seq (Run 4) (Run 5))))))
          init_state)"

text \<open>
  Repeated stop: the computation reads slot \<open>a\<close> and logs \<open>1\<close>; the \<^verbatim>\<open>onStop\<close> callback logs
  \<open>7\<close>. \<open>stopped_once\<close> is the state after the node has run and has been stopped once.
\<close>

definition stop_prog :: program where
  "stop_prog e =
     \<lparr>fn = Seq (Track 2 (Str ''a'')) (Emit 1),
      scheduler = None, computed = False, onStop = Some (Emit 7)\<rparr>"

definition stopped_once :: state where
  "stopped_once =
     outcome_state (exec demo_shared stop_prog 9 (Seq (Run 0) (Stop 0)) init_state)"

text \<open>
  Branch pruning: the computation reads slot \<open>flag\<close>, then slot \<open>a\<close> when the program's
  flag \<open>0\<close> is set and slot \<open>b\<close> otherwise, and logs \<open>1\<close>. \<open>branch_state\<close> is the state
  after a first run with the flag set, followed by clearing the flag.
\<close>

definition branch_prog :: program where
  "branch_prog e =
     \<lparr>fn = Seq (Track 2 (Str ''flag''))
            (Seq (IfFlag 0 (Track 2 (Str ''a'')) (Track 2 (Str ''b''))) (Emit 1)),
      scheduler = None, computed = False, onStop = None\<rparr>"

definition branch_state :: state where
  "branch_state =
     outcome_state
       (exec demo_shared branch_prog 9 (Seq (Assign 0 True) (Seq (Run 0) (Assign 0 False)))
          init_state)"

text \<open>
  Re-entrant run: the computation of node \<open>1\<close> calls its own \<^verbatim>\<open>run\<close> once (the program's
  flag \<open>0\<close> stops the recursion) and logs \<open>1\<close>; the nested execution logs \<open>2\<close>. Node \<open>0\<close>
  runs node \<open>1\<close>, then reads slot \<open>y\<close> and logs \<open>0\<close>.
\<close>

definition reentrant_prog :: program where
  "reentrant_prog e =
     \<lparr>fn = (if e = 0 then Seq (Run 1) (Seq (Track 2 (Str ''y'')) (Emit 0))
            else IfFlag 0 (Emit 2) (Seq (Assign 0 True) (Seq (Run 1) (Emit 1)))),
      scheduler = None, computed = False, onStop = None\<rparr>"



text \<open>
  Pausing: the computation of node \<open>0\<close> calls \<^verbatim>\<open>pauseTracking\<close>; that of node \<open>1\<close> reads slot
  \<open>a\<close> and logs \<open>1\<close>; that of every other node pauses tracking, runs node \<open>1\<close>, reads slot
  \<open>b\<close> and resumes tracking.
\<close>

definition pausing_prog :: program where
  "pausing_prog e =
     \<lparr>fn = (if e = 0 then PauseTracking
            else if e = 1 then Seq (Track 2 (Str ''a'')) (Emit 1)
            else Seq PauseTracking (Seq (Run 1) (Seq (Track 2 (Str ''b'')) ResetTracking))),
      scheduler = None, computed = False, onStop = None\<rparr>"

text \<open>The state in which the computation of node \<open>1\<close> of \<open>pausing_prog\<close> returns.\<close>

definition pausing_body :: state where
  "pausing_body =
     outcome_state
       (exec demo_shared pausing_prog 9 (fn (pausing_prog 1)) (run_enter 1 init_state))"

text \<open>
  Derived-first ordering: nodes \<open>0\<close> and \<open>2\<close> are plain, nodes \<open>1\<close> and \<open>3\<close> are derived and
  have a scheduler; all read slot \<open>x\<close> of the object and log their number, the scheduler
  of node \<open>e\<close> logs \<open>10 + e\<close>.
\<close>

definition derived_prog :: program where
  "derived_prog e =
     \<lparr>fn = Seq (Track 2 (Str ''x'')) (Emit e),
      scheduler = (if e = 1 \<or> e = 3 then Some (Emit (10 + e)) else None),
      computed = (e = 1 \<or> e = 3), onStop = None\<rparr>"

definition derived_state :: state where
  "derived_state =
     outcome_state
       (exec demo_shared derived_prog 9 (Seq (Run 0) (Seq (Run 1) (Seq (Run 2) (Run 3)))) init_state)"

text \<open>Self-write: the computation reads slot \<open>c\<close>, logs \<open>1\<close> and writes slot \<open>c\<close>.\<close>

definition selfwrite_prog :: program where
  "selfwrite_prog e =
     \<lparr>fn = Seq (Track 2 (Str ''c'')) (Seq (Emit 1) (Trigger 2 SET (Str ''c'') None None)),
      scheduler = None, computed = False, onStop = None\<rparr>"

text \<open>The state inside the run of node \<open>0\<close>, just after it has read slot \<open>c\<close>.\<close>

definition selfwrite_state :: state where
  "selfwrite_state = track 2 (Str ''c'') (run_enter 0 init_state)"

text \<open>
  A writer and a reader: the computation of node \<open>0\<close> reads slot \<open>c\<close>, logs \<open>1\<close> and writes
  slot \<open>c\<close>; that of every other node reads slot \<open>c\<close> and logs \<open>2\<close>. \<open>reader_state\<close> is the
  state inside the run of node \<open>0\<close>, just after it has read slot \<open>c\<close>, when node \<open>1\<close> has
  run before.
\<close>

definition reader_prog :: program where
  "reader_prog e =
     \<lparr>fn = (if e = 0
            then Seq (Track 2 (Str ''c'')) (Seq (Emit 1) (Trigger 2 SET (Str ''c'') None None))
            else Seq (Track 2 (Str ''c'')) (Emit 2)),
      scheduler = None, computed = False, onStop = None\<rparr>"

definition reader_state :: state where
  "reader_state =
     track 2 (Str ''c'')
       (run_enter 0 (outcome_state (exec demo_shared reader_prog 9 (Run 1) init_state)))"

text \<open>
  Two writers: the computation of node \<open>0\<close> reads slot \<open>c\<close>, logs \<open>0\<close>, writes slot \<open>c\<close> the
  first time it executes (the program's flag \<open>0\<close> records that it has) and logs \<open>9\<close>. That
  of every other node reads slot \<open>c\<close>, logs \<open>1\<close> and, once node \<open>0\<close> has written, writes
  slot \<open>c\<close> one time (flag \<open>1\<close>).
\<close>

definition mutual_prog :: program where
  "mutual_prog e =
     \<lparr>fn = (if e = 0
            then Seq (Track 2 (Str ''c''))
                   (Seq (Emit 0)
                      (Seq (IfFlag 0 Skip
                              (Seq (Assign 0 True) (Trigger 2 SET (Str ''c'') None None)))
                         (Emit 9)))
            else Seq (Track 2 (Str ''c''))
                   (Seq (Emit 1)
                      (IfFlag 0
                         (IfFlag 1 Skip
                            (Seq (Assign 1 True) (Trigger 2 SET (Str ''c'') None None)))
                         Skip))),
      scheduler = None, computed = False, onStop = None\<rparr>"

text \<open>
  Addition fan-out: node \<open>0\<close> reads \<^verbatim>\<open>length\<close> of the array, node \<open>1\<close> enumerates the keys of
  the object (it reads the iteration key), node \<open>2\<close> reads index \<open>3\<close> of the array.
\<close>

definition fanout_prog :: program where
  "fanout_prog e =
     \<lparr>fn = Seq (if e = 0 then Track 1 (Str ''length'')
                else if e = 1 then Track 2 ITERATE_KEY
                else Track 1 (Str ''3'')) (Emit e),
      scheduler = None, computed = False, onStop = None\<rparr>"

definition fanout_state :: state where
  "fanout_state =
     outcome_state (exec demo_shared fanout_prog 9 (Seq (Run 0) (Seq (Run 1) (Run 2))) init_state)"

section \<open>Basic facts\<close>

lemma and_then_simps [simp]:
  "and_then (Returned s) k = k s"
  "and_then (Thrown s) k = Thrown s"
  "and_then Diverged k = Diverged"
  by (simp_all add: and_then_def)

lemma and_then_assoc: "and_then (and_then r f) g = and_then r (\<lambda>s. and_then (f s) g)"
  by (cases r) simp_all

lemma exec_numeral:
  "exec sh P (numeral n) c s = exec sh P (Suc (pred_numeral n)) c s"
  by (simp only: numeral_eq_Suc)

lemma upd_effect_simps [simp]:
  "effects (upd_effect e f s) = (effects s)(e := f (effects s e))"
  "targetMap (upd_effect e f s) = targetMap s"
  "activeEffect (upd_effect e f s) = activeEffect s"
  "shouldTrack (upd_effect e f s) = shouldTrack s"
  "depStore (upd_effect e f s) = depStore s"
  "nextDep (upd_effect e f s) = nextDep s"
  "userLog (upd_effect e f s) = userLog s"
  "userFlags (upd_effect e f s) = userFlags s"
  by (simp_all add: upd_effect_def)

lemma upd_effect_id: "f (effects s e) = effects s e \<Longrightarrow> upd_effect e f s = s"
  by (simp add: upd_effect_def)

lemma purge_fold:
  "fold (\<lambda>d h. h(d := set_delete e (h d))) ds h d' =
     (if d' \<in> set ds then removeAll e (h d') else h d')"
  by (induction ds arbitrary: h) (auto simp: set_delete_def)

lemma cleanupEffect_simps [simp]:
  "effects (cleanupEffect e s) = (effects s)(e := (effects s e)\<lparr>deps := []\<rparr>)"
  "depStore (cleanupEffect e s) d =
     (if d \<in> set (deps (effects s e)) then removeAll e (depStore s d) else depStore s d)"
  "targetMap (cleanupEffect e s) = targetMap s"
  "activeEffect (cleanupEffect e s) = activeEffect s"
  "shouldTrack (cleanupEffect e s) = shouldTrack s"
  "nextDep (cleanupEffect e s) = nextDep s"
  "userLog (cleanupEffect e s) = userLog s"
  "userFlags (cleanupEffect e s) = userFlags s"
  by (simp_all add: cleanupEffect_def purge_fold)

lemma cleanupEffect_empty:
  assumes "deps (effects s e) = []"
  shows "cleanupEffect e s = s"
proof -
  have "(effects s e)\<lparr>deps := []\<rparr> = effects s e"
    using assms by (cases "effects s e") simp
  then have "upd_effect e (\<lambda>r. r\<lparr>deps := []\<rparr>) s = s"
    by (rule upd_effect_id)
  moreover have
    "s\<lparr>depStore := fold (\<lambda>d h. h(d := set_delete e (h d))) (deps (effects s e)) (depStore s)\<rparr> = s"
    using assms by simp
  ultimately show ?thesis
    by (simp only: cleanupEffect_def)
qed

lemma run_enter_simps [simp]:
  "effects (run_enter e s) =
     (effects s)(e := (effects s e)\<lparr>parent := activeEffect s, deps := []\<rparr>)"
  "depStore (run_enter e s) d =
     (if d \<in> set (deps (effects s e)) then removeAll e (depStore s d) else depStore s d)"
  "targetMap (run_enter e s) = targetMap s"
  "activeEffect (run_enter e s) = Some e"
  "shouldTrack (run_enter e s) = True"
  "nextDep (run_enter e s) = nextDep s"
  "userLog (run_enter e s) = userLog s"
  "userFlags (run_enter e s) = userFlags s"
  by (simp_all add: run_enter_def)

lemma is_returned_outcome: "is_returned r \<Longrightarrow> r = Returned (outcome_state r)"
  by (cases r) (simp_all add: is_returned_def outcome_state_def)

section \<open>More fuel does not change an outcome\<close>

lemma extendsD:
  assumes "extends call call'" and "call c s \<noteq> Diverged"
  shows "call' c s = call c s"
  using assms(1) [unfolded extends_def, rule_format, OF assms(2)] .

lemma and_then_extends:
  assumes "and_then r k \<noteq> Diverged" and "\<And>s. k s \<noteq> Diverged \<Longrightarrow> k' s = k s"
  shows "and_then r k' = and_then r k"
  using assms by (cases r) simp_all

lemma and_then_extends2:
  assumes "and_then r k \<noteq> Diverged" and "r' = r" and "\<And>s. k s \<noteq> Diverged \<Longrightarrow> k' s = k s"
  shows "and_then r' k' = and_then r k"
  using assms by (cases r) simp_all

lemma and_then_first: "and_then r k \<noteq> Diverged \<Longrightarrow> r \<noteq> Diverged"
  by (cases r) simp_all

lemma stop_extends:
  assumes ext: "extends call call'" and fin: "stop call P e s \<noteq> Diverged"
  shows "stop call' P e s = stop call P e s"
proof (cases "activeEffect s = Some e")
  case True
  then show ?thesis by (simp add: stop_def)
next
  case False
  show ?thesis
  proof (cases "onStop (P e)")
    case None
    with False show ?thesis by (simp add: stop_def)
  next
    case (Some c)
    with False fin have "call c (cleanupEffect e s) \<noteq> Diverged"
      by (auto simp: stop_def dest: and_then_first)
    then have "call' c (cleanupEffect e s) = call c (cleanupEffect e s)"
      using ext by (rule extendsD [rotated])
    with False Some show ?thesis by (simp add: stop_def)
  qed
qed

lemma run_finally_extends:
  assumes ext: "extends call call'" and fin: "run_finally call P e K s \<noteq> Diverged"
  shows "run_finally call' P e K s = run_finally call P e K s"
proof (cases "deferStop (effects s e)")
  case False
  then show ?thesis by (simp add: run_finally_def Let_def)
next
  case True
  let ?s2 = "upd_effect e (\<lambda>r. r\<lparr>parent := None\<rparr>) (s\<lparr>activeEffect := parent (effects s e)\<rparr>)"
  from True fin have "stop call P e ?s2 \<noteq> Diverged"
    by (auto simp: run_finally_def Let_def dest: and_then_first)
  then have "stop call' P e ?s2 = stop call P e ?s2"
    using ext by (rule stop_extends [rotated])
  with True show ?thesis by (simp add: run_finally_def Let_def)
qed

lemma run_extends:
  assumes ext: "extends call call'" and fin: "run call P e s \<noteq> Diverged"
  shows "run call' P e s = run call P e s"
proof (cases "active (effects s e)")
  case False
  with fin have "call (fn (P e)) s \<noteq> Diverged" by (simp add: run_def)
  then have "call' (fn (P e)) s = call (fn (P e)) s"
    using ext by (rule extendsD [rotated])
  with False show ?thesis by (simp add: run_def)
next
  case True
  with fin have body: "call (fn (P e)) (run_enter e s) \<noteq> Diverged"
    by (auto simp: run_def)
  then have same: "call' (fn (P e)) (run_enter e s) = call (fn (P e)) (run_enter e s)"
    using ext by (rule extendsD [rotated])
  show ?thesis
  proof (cases "call (fn (P e)) (run_enter e s)")
    case (Returned sb)
    with True fin have "run_finally call P e Returned sb \<noteq> Diverged"
      by (simp add: run_def)
    then have "run_finally call' P e Returned sb = run_finally call P e Returned sb"
      using ext by (rule run_finally_extends [rotated])
    with True same Returned show ?thesis by (simp add: run_def)
  next
    case (Thrown sb)
    with True fin have "run_finally call P e Thrown sb \<noteq> Diverged"
      by (simp add: run_def)
    then have "run_finally call' P e Thrown sb = run_finally call P e Thrown sb"
      using ext by (rule run_finally_extends [rotated])
    with True same Thrown show ?thesis by (simp add: run_def)
  next
    case Diverged
    with body show ?thesis by simp
  qed
qed

lemma triggerEffect_extends:
  assumes ext: "extends call call'" and fin: "triggerEffect call P e s \<noteq> Diverged"
  shows "triggerEffect call' P e s = triggerEffect call P e s"
proof (cases "activeEffect s \<noteq> Some e")
  case False
  then show ?thesis by (simp add: triggerEffect_def)
next
  case True
  show ?thesis
  proof (cases "scheduler (P e)")
    case None
    with True fin have "run call P e s \<noteq> Diverged" by (simp add: triggerEffect_def)
    then have "run call' P e s = run call P e s"
      using ext by (rule run_extends [rotated])
    with True None show ?thesis by (simp add: triggerEffect_def)
  next
    case (Some c)
    with True fin have "call c s \<noteq> Diverged" by (simp add: triggerEffect_def)
    then have "call' c s = call c s"
      using ext by (rule extendsD [rotated])
    with True Some show ?thesis by (simp add: triggerEffect_def)
  qed
qed

lemma notify_loop_extends:
  assumes ext: "extends call call'"
  shows "notify_loop call P want dep s \<noteq> Diverged \<Longrightarrow>
         notify_loop call' P want dep s = notify_loop call P want dep s"
proof (induction dep arbitrary: s)
  case Nil
  show ?case by simp
next
  case (Cons e es)
  show ?case
  proof (cases "computed (P e) = want")
    case False
    with Cons show ?thesis by simp
  next
    case True
    with Cons.prems have fin: "and_then (triggerEffect call P e s) (notify_loop call P want es)
        \<noteq> Diverged"
      by simp
    then have "triggerEffect call P e s \<noteq> Diverged"
      by (rule and_then_first)
    then have first: "triggerEffect call' P e s = triggerEffect call P e s"
      using ext by (rule triggerEffect_extends [rotated])
    have "and_then (triggerEffect call' P e s) (notify_loop call' P want es)
        = and_then (triggerEffect call P e s) (notify_loop call P want es)"
      using fin first Cons.IH by (rule and_then_extends2)
    with True show ?thesis by simp
  qed
qed

lemma triggerEffects_extends:
  assumes ext: "extends call call'" and fin: "triggerEffects call P dep s \<noteq> Diverged"
  shows "triggerEffects call' P dep s = triggerEffects call P dep s"
proof -
  from fin have fin': "and_then (notify_loop call P True dep s) (notify_loop call P False dep)
      \<noteq> Diverged"
    by (simp add: triggerEffects_def)
  then have "notify_loop call P True dep s \<noteq> Diverged"
    by (rule and_then_first)
  then have first: "notify_loop call' P True dep s = notify_loop call P True dep s"
    by (rule notify_loop_extends [OF ext])
  have "and_then (notify_loop call' P True dep s) (notify_loop call' P False dep)
      = and_then (notify_loop call P True dep s) (notify_loop call P False dep)"
    using fin' first notify_loop_extends [OF ext] by (rule and_then_extends2)
  then show ?thesis by (simp add: triggerEffects_def)
qed

lemma trigger_extends:
  assumes ext: "extends call call'" and fin: "trigger call sh P t ty k nv ov s \<noteq> Diverged"
  shows "trigger call' sh P t ty k nv ov s = trigger call sh P t ty k nv ov s"
proof (cases "targetMap s t")
  case None
  then show ?thesis by (simp add: trigger_def)
next
  case (Some m)
  with fin have "triggerEffects call P
      (union_deps (depStore s) (trigger_deps sh m t ty k nv ov)) s \<noteq> Diverged"
    by (simp add: trigger_def)
  then have "triggerEffects call' P (union_deps (depStore s) (trigger_deps sh m t ty k nv ov)) s
      = triggerEffects call P (union_deps (depStore s) (trigger_deps sh m t ty k nv ov)) s"
    using ext by (rule triggerEffects_extends [rotated])
  with Some show ?thesis by (simp add: trigger_def)
qed

lemma exec_extends_Suc: "extends (exec sh P n) (exec sh P (Suc n))"
proof (induction n)
  case 0
  show ?case by (simp add: extends_def)
next
  case (Suc n)
  note ext = Suc.IH
  show ?case
    unfolding extends_def
  proof (intro allI impI)
    fix c s
    assume fin: "exec sh P (Suc n) c s \<noteq> Diverged"
    show "exec sh P (Suc (Suc n)) c s = exec sh P (Suc n) c s"
    proof (cases c)
      case (Seq a b)
      with fin have fin': "and_then (exec sh P n a s) (exec sh P n b) \<noteq> Diverged"
        by simp
      then have "exec sh P n a s \<noteq> Diverged"
        by (rule and_then_first)
      then have first: "exec sh P (Suc n) a s = exec sh P n a s"
        by (rule extendsD [OF ext])
      have "and_then (exec sh P (Suc n) a s) (exec sh P (Suc n) b)
          = and_then (exec sh P n a s) (exec sh P n b)"
        using fin' first extendsD [OF ext] by (rule and_then_extends2)
      with Seq show ?thesis by simp
    next
      case (IfFlag v a b)
      with fin have "exec sh P n (if userFlags s v then a else b) s \<noteq> Diverged"
        by simp
      then have "exec sh P (Suc n) (if userFlags s v then a else b) s
          = exec sh P n (if userFlags s v then a else b) s"
        by (rule extendsD [OF ext])
      with IfFlag show ?thesis by simp
    next
      case (Trigger t ty k nv ov)
      with fin have "trigger (exec sh P n) sh P t ty k nv ov s \<noteq> Diverged"
        by simp
      then have "trigger (exec sh P (Suc n)) sh P t ty k nv ov s
          = trigger (exec sh P n) sh P t ty k nv ov s"
        by (rule trigger_extends [OF ext])
      with Trigger show ?thesis by simp
    next
      case (Run e)
      with fin have "run (exec sh P n) P e s \<noteq> Diverged"
        by simp
      then have "run (exec sh P (Suc n)) P e s = run (exec sh P n) P e s"
        by (rule run_extends [OF ext])
      with Run show ?thesis by simp
    next
      case (Stop e)
      with fin have "stop (exec sh P n) P e s \<noteq> Diverged"
        by simp
      then have "stop (exec sh P (Suc n)) P e s = stop (exec sh P n) P e s"
        by (rule stop_extends [OF ext])
      with Stop show ?thesis by simp
    qed simp_all
  qed
qed

text \<open>
  Once the interpreter ends on some fuel, it ends in the same way on any greater fuel: an
  outcome computed with enough fuel is the outcome of the program.
\<close>

lemma exec_more_fuel:
  "exec sh P n c s \<noteq> Diverged \<Longrightarrow> exec sh P (n + m) c s = exec sh P n c s"
proof (induction m)
  case 0
  show ?case by simp
next
  case (Suc m)
  then have "exec sh P (n + m) c s \<noteq> Diverged" by simp
  then have "exec sh P (Suc (n + m)) c s = exec sh P (n + m) c s"
    by (rule extendsD [OF exec_extends_Suc])
  with Suc show ?case by simp
qed

section \<open>Invariants of the engine\<close>

lemma outcome_all_simps [simp]:
  "outcome_all I (Returned s) = I s"
  "outcome_all I (Thrown s) = I s"
  "outcome_all I Diverged = True"
  by (simp_all add: outcome_all_def)

lemma outcome_all_and_then:
  assumes "outcome_all I r" and "\<And>s. I s \<Longrightarrow> outcome_all I (k s)"
  shows "outcome_all I (and_then r k)"
  using assms by (cases r) simp_all

lemma engine_invariantD:
  assumes "engine_invariant I" and "I s"
  shows "I (track t k s)" and "I (cleanupEffect e s)"
    and "I (upd_effect e (\<lambda>r. r\<lparr>parent := x\<rparr>) s)"
    and "I (upd_effect e (\<lambda>r. r\<lparr>active := b\<rparr>) s)"
    and "I (upd_effect e (\<lambda>r. r\<lparr>deferStop := b\<rparr>) s)"
    and "I (s\<lparr>activeEffect := y\<rparr>)" and "I (s\<lparr>shouldTrack := b\<rparr>)"
    and "I (s\<lparr>userLog := l\<rparr>)" and "I (s\<lparr>userFlags := f\<rparr>)"
proof -
  note c = assms(1) [unfolded engine_invariant_def, rule_format, OF assms(2)]
  note r = c [THEN conjunct2]
  note r2 = r [THEN conjunct2]
  note r3 = r2 [THEN conjunct2]
  note r4 = r3 [THEN conjunct2]
  note r5 = r4 [THEN conjunct2]
  note r6 = r5 [THEN conjunct2]
  note r7 = r6 [THEN conjunct2]
  show "I (track t k s)" by (rule c [THEN conjunct1, rule_format])
  show "I (cleanupEffect e s)" by (rule r [THEN conjunct1, rule_format])
  show "I (upd_effect e (\<lambda>r. r\<lparr>parent := x\<rparr>) s)" by (rule r2 [THEN conjunct1, rule_format])
  show "I (upd_effect e (\<lambda>r. r\<lparr>active := b\<rparr>) s)" by (rule r3 [THEN conjunct1, rule_format])
  show "I (upd_effect e (\<lambda>r. r\<lparr>deferStop := b\<rparr>) s)" by (rule r4 [THEN conjunct1, rule_format])
  show "I (s\<lparr>activeEffect := y\<rparr>)" by (rule r5 [THEN conjunct1, rule_format])
  show "I (s\<lparr>shouldTrack := b\<rparr>)" by (rule r6 [THEN conjunct1, rule_format])
  show "I (s\<lparr>userLog := l\<rparr>)" by (rule r7 [THEN conjunct1, rule_format])
  show "I (s\<lparr>userFlags := f\<rparr>)" by (rule r7 [THEN conjunct2, rule_format])
qed

lemma stop_invariant:
  assumes inv: "engine_invariant I" and call: "\<forall>c s. I s \<longrightarrow> outcome_all I (call c s)"
    and s: "I s"
  shows "outcome_all I (stop call P e s)"
proof (cases "activeEffect s = Some e")
  case True
  then show ?thesis
    using engine_invariantD(5) [OF inv s] by (simp add: stop_def)
next
  case False
  have purge: "I (cleanupEffect e s)"
    using engine_invariantD(2) [OF inv s] .
  have "outcome_all I (case onStop (P e) of
             None \<Rightarrow> Returned (cleanupEffect e s)
           | Some c \<Rightarrow> call c (cleanupEffect e s))"
    using purge call [rule_format, OF purge] by (cases "onStop (P e)") simp_all
  then show ?thesis
    using False engine_invariantD(4) [OF inv]
    by (simp add: stop_def outcome_all_and_then)
qed

lemma run_finally_invariant:
  assumes inv: "engine_invariant I" and call: "\<forall>c s. I s \<longrightarrow> outcome_all I (call c s)"
    and k: "k = Returned \<or> k = Thrown" and s: "I s"
  shows "outcome_all I (run_finally call P e k s)"
proof -
  let ?s1 = "s\<lparr>activeEffect := parent (effects s e)\<rparr>"
  let ?s2 = "upd_effect e (\<lambda>r. r\<lparr>parent := None\<rparr>) ?s1"
  have s2: "I ?s2"
    using engine_invariantD(3) [OF inv engine_invariantD(6) [OF inv s]] .
  have kI: "\<And>s'. I s' \<Longrightarrow> outcome_all I (k s')"
    using k by auto
  show ?thesis
  proof (cases "deferStop (effects ?s2 e)")
    case True
    have "outcome_all I (and_then (stop call P e ?s2)
             (\<lambda>s3. k (upd_effect e (\<lambda>r. r\<lparr>deferStop := False\<rparr>) s3)))"
    proof (rule outcome_all_and_then)
      show "outcome_all I (stop call P e ?s2)"
        using stop_invariant [OF inv call s2] .
    next
      fix s3
      assume "I s3"
      then have "I (upd_effect e (\<lambda>r. r\<lparr>deferStop := False\<rparr>) s3)"
        using engine_invariantD(5) [OF inv] by blast
      then show "outcome_all I (k (upd_effect e (\<lambda>r. r\<lparr>deferStop := False\<rparr>) s3))"
        by (rule kI)
    qed
    with True show ?thesis by (simp add: run_finally_def Let_def)
  next
    case False
    with kI [OF s2] show ?thesis by (simp add: run_finally_def Let_def)
  qed
qed

lemma run_enter_invariant:
  assumes inv: "engine_invariant I" and s: "I s"
  shows "I (run_enter e s)"
proof -
  have "I (upd_effect e (\<lambda>r. r\<lparr>parent := activeEffect s\<rparr>) s)"
    using engine_invariantD(3) [OF inv s] .
  then have "I ((upd_effect e (\<lambda>r. r\<lparr>parent := activeEffect s\<rparr>) s)\<lparr>activeEffect := Some e\<rparr>)"
    using engine_invariantD(6) [OF inv] by blast
  then have "I ((upd_effect e (\<lambda>r. r\<lparr>parent := activeEffect s\<rparr>) s)
      \<lparr>activeEffect := Some e, shouldTrack := True\<rparr>)"
    using engine_invariantD(7) [OF inv] by blast
  then show ?thesis
    unfolding run_enter_def using engine_invariantD(2) [OF inv] by blast
qed

lemma run_invariant:
  assumes inv: "engine_invariant I" and call: "\<forall>c s. I s \<longrightarrow> outcome_all I (call c s)"
    and s: "I s"
  shows "outcome_all I (run call P e s)"
proof (cases "active (effects s e)")
  case False
  then show ?thesis using call [rule_format, OF s] by (simp add: run_def)
next
  case True
  have body: "outcome_all I (call (fn (P e)) (run_enter e s))"
    using call [rule_format, OF run_enter_invariant [OF inv s]] .
  show ?thesis
  proof (cases "call (fn (P e)) (run_enter e s)")
    case (Returned s2)
    with body True show ?thesis
      using run_finally_invariant [OF inv call, where k = Returned and s = s2]
      by (simp add: run_def)
  next
    case (Thrown s2)
    with body True show ?thesis
      using run_finally_invariant [OF inv call, where k = Thrown and s = s2]
      by (simp add: run_def)
  next
    case Diverged
    with True show ?thesis by (simp add: run_def)
  qed
qed

lemma triggerEffect_invariant:
  assumes inv: "engine_invariant I" and call: "\<forall>c s. I s \<longrightarrow> outcome_all I (call c s)"
    and s: "I s"
  shows "outcome_all I (triggerEffect call P e s)"
  using run_invariant [OF inv call s] call [rule_format, OF s] s
  by (simp add: triggerEffect_def split: option.splits)

lemma notify_loop_invariant:
  assumes inv: "engine_invariant I" and call: "\<forall>c s. I s \<longrightarrow> outcome_all I (call c s)"
  shows "I s \<Longrightarrow> outcome_all I (notify_loop call P want dep s)"
proof (induction dep arbitrary: s)
  case Nil
  then show ?case by simp
next
  case (Cons e es)
  show ?case
  proof (cases "computed (P e) = want")
    case True
    have "outcome_all I (and_then (triggerEffect call P e s) (notify_loop call P want es))"
    proof (rule outcome_all_and_then)
      show "outcome_all I (triggerEffect call P e s)"
        using triggerEffect_invariant [OF inv call Cons.prems] .
    qed (rule Cons.IH)
    with True show ?thesis by simp
  next
    case False
    with Cons show ?thesis by simp
  qed
qed

lemma triggerEffects_invariant:
  assumes inv: "engine_invariant I" and call: "\<forall>c s. I s \<longrightarrow> outcome_all I (call c s)"
    and s: "I s"
  shows "outcome_all I (triggerEffects call P dep s)"
  unfolding triggerEffects_def
proof (rule outcome_all_and_then)
  show "outcome_all I (notify_loop call P True dep s)"
    using notify_loop_invariant [OF inv call s] .
qed (rule notify_loop_invariant [OF inv call])

lemma trigger_invariant:
  assumes inv: "engine_invariant I" and call: "\<forall>c s. I s \<longrightarrow> outcome_all I (call c s)"
    and s: "I s"
  shows "outcome_all I (trigger call sh P t ty k nv ov s)"
  using triggerEffects_invariant [OF inv call s] s
  by (simp add: trigger_def split: option.splits)

text \<open>Whatever the program, a run of the interpreter that ends leaves the invariant intact.\<close>

lemma exec_invariant_all:
  assumes inv: "engine_invariant I"
  shows "\<forall>c s. I s \<longrightarrow> outcome_all I (exec sh P n c s)"
proof (induction n)
  case 0
  show ?case by simp
next
  case (Suc n)
  note call = Suc.IH
  show ?case
  proof (intro allI impI)
    fix c s
    assume s: "I s"
    note step = call [rule_format]
    show "outcome_all I (exec sh P (Suc n) c s)"
    proof (cases c)
      case Skip
      with s show ?thesis by simp
    next
      case Throw
      with s show ?thesis by simp
    next
      case (Seq a b)
      have "outcome_all I (and_then (exec sh P n a s) (exec sh P n b))"
      proof (rule outcome_all_and_then)
        show "outcome_all I (exec sh P n a s)"
          using step [OF s] .
      qed (rule step)
      with Seq show ?thesis by simp
    next
      case (IfFlag v a b)
      with step [OF s] show ?thesis by simp
    next
      case (Track t k)
      with engine_invariantD(1) [OF inv s] show ?thesis by simp
    next
      case (Trigger t ty k nv ov)
      with trigger_invariant [OF inv call s] show ?thesis by simp
    next
      case (Run e)
      with run_invariant [OF inv call s] show ?thesis by simp
    next
      case (Stop e)
      with stop_invariant [OF inv call s] show ?thesis by simp
    next
      case PauseTracking
      with engine_invariantD(7) [OF inv s] show ?thesis by (simp add: pauseTracking_def)
    next
      case ResetTracking
      with engine_invariantD(7) [OF inv s] show ?thesis by (simp add: resetTracking_def)
    next
      case (Emit x)
      with engine_invariantD(8) [OF inv s] show ?thesis by simp
    next
      case (Assign v b)
      with engine_invariantD(9) [OF inv s] show ?thesis by simp
    qed
  qed
qed

lemma exec_invariant:
  "engine_invariant I \<Longrightarrow> I s \<Longrightarrow> outcome_all I (exec sh P n c s)"
  using exec_invariant_all by blast

lemma track_stores:
  assumes "shouldTrack s" and "activeEffect s = Some e"
  shows "\<exists>d old. depStore (track t k s) = (depStore s)(d := set_add e old) \<and>
           set old \<subseteq> set (depStore s d) \<and>
           effects (track t k s) = (effects s)(e := (effects s e)\<lparr>deps := deps (effects s e) @ [d]\<rparr>)"
proof (cases "key_map s t k")
  case None
  with assms have "depStore (track t k s) = (depStore s)(nextDep s := set_add e []) \<and>
      effects (track t k s) =
        (effects s)(e := (effects s e)\<lparr>deps := deps (effects s e) @ [nextDep s]\<rparr>)"
    by (auto simp: track_def trackEffects_def upd_effect_def key_map_def Let_def
        split: option.splits)
  then show ?thesis by (intro exI [of _ "nextDep s"] exI [of _ "[]"]) simp
next
  case (Some d)
  with assms have "depStore (track t k s) = (depStore s)(d := set_add e (depStore s d)) \<and>
      effects (track t k s) = (effects s)(e := (effects s e)\<lparr>deps := deps (effects s e) @ [d]\<rparr>)"
    by (auto simp: track_def trackEffects_def upd_effect_def key_map_def Let_def
        split: option.splits)
  then show ?thesis by (intro exI [of _ d] exI [of _ "depStore s d"]) simp
qed

lemma track_consistent:
  assumes s: "subs_consistent s"
  shows "subs_consistent (track t k s)"
proof (cases "shouldTrack s \<and> activeEffect s \<noteq> None")
  case False
  then have "track t k s = s" by (auto simp: track_def)
  with s show ?thesis by simp
next
  case True
  then obtain e where e: "shouldTrack s" "activeEffect s = Some e" by auto
  from track_stores [OF e] obtain d old where
    st: "depStore (track t k s) = (depStore s)(d := set_add e old)" and
    old: "set old \<subseteq> set (depStore s d)" and
    ef: "effects (track t k s) = (effects s)(e := (effects s e)\<lparr>deps := deps (effects s e) @ [d]\<rparr>)"
    by blast
  show ?thesis
    unfolding subs_consistent_def subscriptions_cover_def
  proof (intro allI impI)
    fix e' d'
    assume m: "e' \<in> set (depStore (track t k s) d')"
    show "d' \<in> set (deps (effects (track t k s) e'))"
    proof (cases "d' = d")
      case True
      show ?thesis
      proof (cases "e' = e")
        case True
        with \<open>d' = d\<close> show ?thesis by (simp add: ef)
      next
        case False
        with m \<open>d' = d\<close> have "e' \<in> set old"
          by (simp add: st set_add_def split: if_splits)
        with old have "e' \<in> set (depStore s d)" by blast
        with s have "d \<in> set (deps (effects s e'))"
          by (simp add: subs_consistent_def subscriptions_cover_def)
        with False \<open>d' = d\<close> show ?thesis by (simp add: ef)
      qed
    next
      case False
      with m have "e' \<in> set (depStore s d')" by (simp add: st)
      with s have "d' \<in> set (deps (effects s e'))"
        by (simp add: subs_consistent_def subscriptions_cover_def)
      then show ?thesis by (auto simp: ef)
    qed
  qed
qed

lemma cleanupEffect_consistent:
  assumes "subs_consistent s"
  shows "subs_consistent (cleanupEffect e s)"
  using assms unfolding subs_consistent_def subscriptions_cover_def by auto

lemma subs_consistent_engine: "engine_invariant subs_consistent"
  unfolding engine_invariant_def
proof (intro allI impI conjI)
  fix s t k
  assume "subs_consistent s"
  then show "subs_consistent (track t k s)"
    by (rule track_consistent)
next
  fix s e
  assume "subs_consistent s"
  then show "subs_consistent (cleanupEffect e s)"
    by (rule cleanupEffect_consistent)
qed (simp_all add: subs_consistent_def subscriptions_cover_def)

lemma subs_consistent_init: "subs_consistent init_state"
  by (simp add: subs_consistent_def subscriptions_cover_def init_state_def)

lemma subs_consistent_reachable:
  "subs_consistent (outcome_state (exec sh P n c init_state))"
  using exec_invariant [OF subs_consistent_engine subs_consistent_init, of sh P n c]
    subs_consistent_init
  by (cases "exec sh P n c init_state") (simp_all add: outcome_state_def)

section \<open>The affected collection\<close>

lemma set_fold_set_add: "set (fold set_add xs acc) = set acc \<union> set xs"
  by (induction xs arbitrary: acc) (auto simp: set_add_def)

lemma distinct_fold_set_add: "distinct acc \<Longrightarrow> distinct (fold set_add xs acc)"
  by (induction xs arbitrary: acc) (auto simp: set_add_def)

lemma set_union_fold:
  "set (fold (\<lambda>d acc. case d of None \<Rightarrow> acc | Some a \<Rightarrow> fold set_add (store a) acc) ds acc)
     = set acc \<union> (\<Union>d \<in> {d. Some d \<in> set ds}. set (store d))"
  by (induction ds arbitrary: acc) (auto simp: set_fold_set_add split: option.splits)

lemma distinct_union_fold:
  "distinct acc \<Longrightarrow>
   distinct (fold (\<lambda>d acc. case d of None \<Rightarrow> acc | Some a \<Rightarrow> fold set_add (store a) acc) ds acc)"
  by (induction ds arbitrary: acc) (auto simp: distinct_fold_set_add split: option.splits)

text \<open>The collection handed to \<^verbatim>\<open>triggerEffects\<close> is the union of the sets found, without duplicates.\<close>

lemma set_union_deps:
  "set (union_deps store ds) = (\<Union>d \<in> {d. Some d \<in> set ds}. set (store d))"
  by (simp add: union_deps_def set_union_fold)

lemma distinct_union_deps: "distinct (union_deps store ds)"
  by (simp add: union_deps_def distinct_union_fold)

section \<open>Sequence truncation\<close>

text \<open>
  Claim C1 (the code departs from it). An array of length 5 has one subscriber per index
  \<open>0, \<dots>, 4\<close> (node \<open>e\<close> for index \<open>e\<close>) and node \<open>5\<close> on \<^verbatim>\<open>length\<close>. On
  \<^verbatim>\<open>trigger(array, SET, "length", 2, 5)\<close> the loop looks up the keys \<^verbatim>\<open>"1"\<close>, \<^verbatim>\<open>"2"\<close>, \<^verbatim>\<open>"3"\<close>: the
  collection notified is \<open>[5, 1, 2, 3]\<close>. The subscriber of index \<open>1\<close> runs again and the
  subscriber of index \<open>4\<close> does not.
\<close>

theorem truncation_notifies_shifted_indices:
  "isArray demo_shared 1 \<and>
   map (key_map truncation_state 1)
     [Str ''0'', Str ''1'', Str ''2'', Str ''3'', Str ''4'', Str ''length'']
     = [Some 0, Some 1, Some 2, Some 3, Some 4, Some 5] \<and>
   map (depStore truncation_state) [0, 1, 2, 3, 4, 5] = [[0], [1], [2], [3], [4], [5]] \<and>
   trigger_deps demo_shared (key_map truncation_state 1) 1 SET (Str ''length'') (Some 2) (Some 5)
     = [Some 5, Some 1, Some 2, Some 3] \<and>
   union_deps (depStore truncation_state) [Some 5, Some 1, Some 2, Some 3] = [5, 1, 2, 3] \<and>
   userLog truncation_state = [0, 1, 2, 3, 4, 5] \<and>
   is_returned (exec demo_shared truncation_prog 12
      (Trigger 1 SET (Str ''length'') (Some 2) (Some 5)) truncation_state) \<and>
   userLog (outcome_state (exec demo_shared truncation_prog 12
      (Trigger 1 SET (Str ''length'') (Some 2) (Some 5)) truncation_state))
     = [0, 1, 2, 3, 4, 5, 5, 1, 2, 3]"
  by code_simp

section \<open>Stopping a node\<close>

text \<open>
  Claim C2 as stated fails: \<^verbatim>\<open>stop\<close> does not test \<^verbatim>\<open>active\<close>. Node \<open>0\<close> of \<open>stop_prog\<close> has
  been stopped once (it is inactive, its subscription list is empty and its callback has
  logged \<open>7\<close> once); a second \<^verbatim>\<open>stop\<close> returns a different state, in which the callback
  has logged \<open>7\<close> a second time.
\<close>

theorem stop_twice_counterexample:
  "\<not> active (effects stopped_once 0) \<and> deps (effects stopped_once 0) = [] \<and>
   activeEffect stopped_once = None \<and> userLog stopped_once = [1, 7] \<and>
   is_returned (stop (exec demo_shared stop_prog 9) stop_prog 0 stopped_once) \<and>
   userLog (outcome_state (stop (exec demo_shared stop_prog 9) stop_prog 0 stopped_once))
     = [1, 7, 7] \<and>
   stop (exec demo_shared stop_prog 9) stop_prog 0 stopped_once \<noteq> Returned stopped_once"
proof -
  have f1: "\<not> active (effects stopped_once 0)" by code_simp
  have f2: "deps (effects stopped_once 0) = []" by code_simp
  have f3: "activeEffect stopped_once = None" by code_simp
  have f4: "userLog stopped_once = [1, 7]" by code_simp
  have f5: "is_returned (stop (exec demo_shared stop_prog 9) stop_prog 0 stopped_once)"
    by code_simp
  have f6: "userLog (outcome_state (stop (exec demo_shared stop_prog 9) stop_prog 0 stopped_once))
     = [1, 7, 7]"
    by code_simp
  have f7: "stop (exec demo_shared stop_prog 9) stop_prog 0 stopped_once \<noteq> Returned stopped_once"
  proof
    assume "stop (exec demo_shared stop_prog 9) stop_prog 0 stopped_once = Returned stopped_once"
    then have "outcome_state (stop (exec demo_shared stop_prog 9) stop_prog 0 stopped_once)
        = stopped_once"
      by (simp only: outcome_state_def outcome.case)
    then have "userLog (outcome_state (stop (exec demo_shared stop_prog 9) stop_prog 0 stopped_once))
        = userLog stopped_once"
      by (rule arg_cong)
    then have "[1, 7, 7] = [1, 7 :: nat]"
      by (simp only: f4 f6)
    then show False by simp
  qed
  show ?thesis
    by (intro conjI f1 f2 f3 f4 f5 f6 f7)
qed

text \<open>
  Claim C2 as amended. For a node that is inactive, has an empty subscription list (as
  \<^verbatim>\<open>stop\<close> leaves it) and is not the current node, a further \<^verbatim>\<open>stop\<close> changes nothing when
  the node has no \<^verbatim>\<open>onStop\<close> callback; when it has one, the callback is invoked again, in
  the unchanged state, and the node is inactive afterwards. The callback thus fires once
  for every call of \<^verbatim>\<open>stop\<close> that is not deferred.
\<close>

theorem stop_again:
  assumes "\<not> active (effects s e)" and "deps (effects s e) = []" and "activeEffect s \<noteq> Some e"
  shows "stop call P e s =
     (case onStop (P e) of
        None \<Rightarrow> Returned s
      | Some c \<Rightarrow> and_then (call c s) (\<lambda>s1. Returned (upd_effect e (\<lambda>r. r\<lparr>active := False\<rparr>) s1)))"
  using assms by (simp add: stop_def cleanupEffect_empty upd_effect_id split: option.splits)

theorem stop_again_witness:
  "\<not> active (effects stopped_once 0) \<and> deps (effects stopped_once 0) = [] \<and>
   activeEffect stopped_once \<noteq> Some 0 \<and>
   stop (exec demo_shared stop_prog 9) stop_prog 0 stopped_once =
     Returned (upd_effect 0 (\<lambda>r. r\<lparr>active := False\<rparr>)
       (stopped_once\<lparr>userLog := userLog stopped_once @ [7]\<rparr>))"
proof -
  have a: "\<not> active (effects stopped_once 0)" by code_simp
  have b: "deps (effects stopped_once 0) = []" by code_simp
  have c: "activeEffect stopped_once \<noteq> Some 0" by code_simp
  have cb: "onStop (stop_prog 0) = Some (Emit 7)"
    by (simp add: stop_prog_def)
  have ex: "exec demo_shared stop_prog 9 (Emit 7) stopped_once
      = Returned (stopped_once\<lparr>userLog := userLog stopped_once @ [7]\<rparr>)"
    by (simp only: exec_numeral exec.simps cmd.case)
  have d: "stop (exec demo_shared stop_prog 9) stop_prog 0 stopped_once =
     Returned (upd_effect 0 (\<lambda>r. r\<lparr>active := False\<rparr>)
       (stopped_once\<lparr>userLog := userLog stopped_once @ [7]\<rparr>))"
    using stop_again [OF a b c, where call = "exec demo_shared stop_prog 9" and P = stop_prog]
    by (simp only: cb ex option.case and_then_simps)
  show ?thesis
    by (intro conjI a b c d)
qed

section \<open>Notification order\<close>

lemma notify_loop_filter:
  "notify_loop call P want dep = notify_in_order call P (filter (\<lambda>e. computed (P e) = want) dep)"
proof (induction dep)
  case Nil
  show ?case by (rule ext) simp
next
  case (Cons e es)
  show ?case by (rule ext) (simp add: Cons.IH)
qed

lemma notify_in_order_append:
  "notify_in_order call P (xs @ ys) s =
     and_then (notify_in_order call P xs s) (notify_in_order call P ys)"
proof (induction xs arbitrary: s)
  case Nil
  show ?case by simp
next
  case (Cons x xs)
  have "(\<lambda>s. notify_in_order call P (xs @ ys) s) =
        (\<lambda>s. and_then (notify_in_order call P xs s) (notify_in_order call P ys))"
    by (rule ext) (rule Cons.IH)
  then show ?case by (simp add: and_then_assoc)
qed

lemma triggerEffects_order:
  "triggerEffects call P dep s = notify_in_order call P (notification_order P dep) s"
  by (simp add: triggerEffects_def notification_order_def notify_loop_filter
      notify_in_order_append)

lemma notification_order_derived_first:
  assumes ij: "i < j" and j: "j < length (notification_order P dep)"
    and cj: "computed (P (notification_order P dep ! j))"
  shows "computed (P (notification_order P dep ! i))"
proof -
  let ?A = "filter (\<lambda>e. computed (P e)) dep" and ?B = "filter (\<lambda>e. \<not> computed (P e)) dep"
  have B: "\<And>n. n < length ?B \<Longrightarrow> \<not> computed (P (?B ! n))"
    using nth_mem [of _ ?B] by fastforce
  have A: "\<And>n. n < length ?A \<Longrightarrow> computed (P (?A ! n))"
    using nth_mem [of _ ?A] by fastforce
  have "j < length ?A"
  proof (rule ccontr)
    assume "\<not> j < length ?A"
    then have "notification_order P dep ! j = ?B ! (j - length ?A)" "j - length ?A < length ?B"
      using j by (simp_all add: notification_order_def nth_append)
    with B cj show False by simp
  qed
  with ij have "i < length ?A" by simp
  then show ?thesis using A by (simp add: notification_order_def nth_append)
qed

text \<open>
  Claim C3. \<^verbatim>\<open>triggerEffects\<close> notifies the nodes of the collection one after the other in
  the order \<open>notification_order\<close>: in that order no plain node stands before a derived
  one, and the order is a rearrangement of the collection (same members, same length, no
  duplicates when the collection has none). A notification that throws ends both passes.
\<close>

theorem derived_first:
  "triggerEffects call P dep s = notify_in_order call P (notification_order P dep) s \<and>
   (\<forall>i j. i < j \<and> j < length (notification_order P dep) \<and>
      computed (P (notification_order P dep ! j)) \<longrightarrow>
      computed (P (notification_order P dep ! i))) \<and>
   set (notification_order P dep) = set dep \<and>
   length (notification_order P dep) = length dep \<and>
   (distinct dep \<longrightarrow> distinct (notification_order P dep))"
proof (intro conjI allI impI)
  show "triggerEffects call P dep s = notify_in_order call P (notification_order P dep) s"
    by (rule triggerEffects_order)
next
  fix i j
  assume "i < j \<and> j < length (notification_order P dep) \<and>
      computed (P (notification_order P dep ! j))"
  then show "computed (P (notification_order P dep ! i))"
    using notification_order_derived_first by blast
next
  show "set (notification_order P dep) = set dep"
    by (auto simp: notification_order_def)
next
  show "length (notification_order P dep) = length dep"
    by (simp add: notification_order_def sum_length_filter_compl)
next
  assume "distinct dep"
  then show "distinct (notification_order P dep)"
    by (auto simp: notification_order_def)
qed

theorem derived_first_witness:
  "depStore derived_state 0 = [0, 1, 2, 3] \<and>
   notification_order derived_prog [0, 1, 2, 3] = [1, 3, 0, 2] \<and>
   computed (derived_prog (notification_order derived_prog [0, 1, 2, 3] ! 0)) \<and>
   triggerEffects (exec demo_shared derived_prog 9) derived_prog [0, 1, 2, 3] derived_state =
     notify_in_order (exec demo_shared derived_prog 9) derived_prog [1, 3, 0, 2] derived_state \<and>
   userLog derived_state = [0, 1, 2, 3] \<and>
   userLog (outcome_state (exec demo_shared derived_prog 9
      (Trigger 2 SET (Str ''x'') None None) derived_state)) = [0, 1, 2, 3, 11, 13, 0, 2]"
proof -
  have store: "depStore derived_state 0 = [0, 1, 2, 3]"
    by code_simp
  have order: "notification_order derived_prog [0, 1, 2, 3] = [1, 3, 0, 2]"
    by code_simp
  have pre: "(0::nat) < 1 \<and> 1 < length (notification_order derived_prog [0, 1, 2, 3]) \<and>
      computed (derived_prog (notification_order derived_prog [0, 1, 2, 3] ! 1))"
    by code_simp
  note inst = derived_first [where call = "exec demo_shared derived_prog 9" and P = derived_prog
      and dep = "[0, 1, 2, 3]" and s = derived_state]
  from inst pre have first: "computed (derived_prog (notification_order derived_prog [0, 1, 2, 3] ! 0))"
    by blast
  from inst have "triggerEffects (exec demo_shared derived_prog 9) derived_prog [0, 1, 2, 3] derived_state =
     notify_in_order (exec demo_shared derived_prog 9) derived_prog
       (notification_order derived_prog [0, 1, 2, 3]) derived_state"
    by (rule conjunct1)
  then have run: "triggerEffects (exec demo_shared derived_prog 9) derived_prog [0, 1, 2, 3] derived_state =
     notify_in_order (exec demo_shared derived_prog 9) derived_prog [1, 3, 0, 2] derived_state"
    by (simp only: order)
  have log0: "userLog derived_state = [0, 1, 2, 3]"
    by code_simp
  have log: "userLog (outcome_state (exec demo_shared derived_prog 9
      (Trigger 2 SET (Str ''x'') None None) derived_state)) = [0, 1, 2, 3, 11, 13, 0, 2]"
    by code_simp
  show ?thesis
    by (intro conjI store order first run log0 log)
qed

section \<open>The self-notification guard\<close>

lemma triggerEffect_self: "activeEffect s = Some e \<Longrightarrow> triggerEffect call P e s = Returned s"
  by (simp add: triggerEffect_def)

lemma notify_loop_self:
  "activeEffect s = Some e \<Longrightarrow> set dep \<subseteq> {e} \<Longrightarrow> notify_loop call P want dep s = Returned s"
  by (induction dep) (auto simp: triggerEffect_self)

lemma triggerEffects_self:
  "activeEffect s = Some e \<Longrightarrow> set dep \<subseteq> {e} \<Longrightarrow> triggerEffects call P dep s = Returned s"
  by (simp add: triggerEffects_def notify_loop_self)

lemma notify_in_order_skip_current:
  "activeEffect s = Some e \<Longrightarrow> others_keep_current call P e xs s \<Longrightarrow>
   notify_in_order call P xs s = notify_in_order call P (filter (\<lambda>x. x \<noteq> e) xs) s"
proof (induction xs arbitrary: s)
  case Nil
  show ?case by simp
next
  case (Cons x xs)
  show ?case
  proof (cases "x = e")
    case True
    with Cons.prems have "others_keep_current call P e xs s"
      by simp
    with Cons.prems(1) have "notify_in_order call P xs s
        = notify_in_order call P (filter (\<lambda>x. x \<noteq> e) xs) s"
      by (rule Cons.IH)
    with True Cons.prems(1) show ?thesis
      by (simp add: triggerEffect_self)
  next
    case False
    show ?thesis
    proof (cases "triggerEffect call P x s")
      case (Returned s1)
      with False Cons.prems(2) have "activeEffect s1 = Some e" "others_keep_current call P e xs s1"
        by simp_all
      then have "notify_in_order call P xs s1
          = notify_in_order call P (filter (\<lambda>x. x \<noteq> e) xs) s1"
        by (rule Cons.IH)
      with False Returned show ?thesis by simp
    next
      case (Thrown s1)
      with False show ?thesis by simp
    next
      case Diverged
      with False show ?thesis by simp
    qed
  qed
qed

lemma triggerEffects_skip_current:
  assumes "activeEffect s = Some e"
    and "others_keep_current call P e (notification_order P dep) s"
  shows "triggerEffects call P dep s =
     notify_in_order call P (filter (\<lambda>x. x \<noteq> e) (notification_order P dep)) s"
  using notify_in_order_skip_current [OF assms] by (simp add: triggerEffects_order)

text \<open>
  Claim C4 as stated fails: the guard compares a node with the current node only, so a
  computation that writes a slot it also reads is run again, synchronously, when another
  subscriber of the slot writes the slot in turn. In \<open>mutual_prog\<close> node \<open>1\<close> runs, then node
  \<open>0\<close>: it reads slot \<open>c\<close>, logs \<open>0\<close> and writes slot \<open>c\<close>; the write runs node \<open>1\<close>, whose
  write runs node \<open>0\<close> again (node \<open>1\<close> is current then): node \<open>0\<close> logs \<open>0\<close> a second time
  before its first execution has logged \<open>9\<close>.
\<close>

theorem self_notification_counterexample:
  "is_returned (exec demo_shared mutual_prog 20 (Seq (Run 1) (Run 0)) init_state) \<and>
   userLog (outcome_state (exec demo_shared mutual_prog 20 (Seq (Run 1) (Run 0)) init_state))
     = [1, 0, 1, 0, 9, 9]"
  by code_simp

text \<open>
  Claim C4 as amended. While node \<open>e\<close> is the current node, notifying \<open>e\<close> does nothing:
  whatever the callables do when invoked (\<open>call\<close> is arbitrary), \<^verbatim>\<open>triggerEffect\<close> returns the
  state it was given, so neither the scheduler nor \<^verbatim>\<open>run\<close> of \<open>e\<close> was invoked. Hence a
  notification started while \<open>e\<close> is current notifies exactly the other nodes of the
  collection, in the order of the two passes, as long as each of these notifications
  returns with \<open>e\<close> still current; a write by the current node is such a notification of
  the affected collection. In particular, when \<open>e\<close> is the only node concerned, the
  notification and the write return at once.
\<close>

theorem self_notification_guard:
  assumes "activeEffect s = Some e"
  shows "triggerEffect call P e s = Returned s \<and>
         (others_keep_current call P e (notification_order P dep) s \<longrightarrow>
            triggerEffects call P dep s =
              notify_in_order call P (filter (\<lambda>x. x \<noteq> e) (notification_order P dep)) s) \<and>
         (\<forall>m. targetMap s t = Some m \<and>
            others_keep_current call P e
              (notification_order P
                 (union_deps (depStore s) (trigger_deps sh m t ty k nv ov))) s \<longrightarrow>
            trigger call sh P t ty k nv ov s =
              notify_in_order call P
                (filter (\<lambda>x. x \<noteq> e)
                   (notification_order P
                      (union_deps (depStore s) (trigger_deps sh m t ty k nv ov)))) s) \<and>
         (set dep \<subseteq> {e} \<longrightarrow> triggerEffects call P dep s = Returned s) \<and>
         ((case targetMap s t of
             None \<Rightarrow> True
           | Some m \<Rightarrow> set (union_deps (depStore s) (trigger_deps sh m t ty k nv ov)) \<subseteq> {e}) \<longrightarrow>
            trigger call sh P t ty k nv ov s = Returned s)"
proof (intro conjI allI impI)
  show "triggerEffect call P e s = Returned s"
    using assms by (rule triggerEffect_self)
next
  assume "others_keep_current call P e (notification_order P dep) s"
  with assms show "triggerEffects call P dep s =
      notify_in_order call P (filter (\<lambda>x. x \<noteq> e) (notification_order P dep)) s"
    by (rule triggerEffects_skip_current)
next
  fix m
  assume a: "targetMap s t = Some m \<and>
      others_keep_current call P e
        (notification_order P (union_deps (depStore s) (trigger_deps sh m t ty k nv ov))) s"
  then have "triggerEffects call P (union_deps (depStore s) (trigger_deps sh m t ty k nv ov)) s =
      notify_in_order call P
        (filter (\<lambda>x. x \<noteq> e)
           (notification_order P (union_deps (depStore s) (trigger_deps sh m t ty k nv ov)))) s"
    using triggerEffects_skip_current [OF assms] by blast
  with a show "trigger call sh P t ty k nv ov s =
      notify_in_order call P
        (filter (\<lambda>x. x \<noteq> e)
           (notification_order P (union_deps (depStore s) (trigger_deps sh m t ty k nv ov)))) s"
    by (simp add: trigger_def)
next
  assume "set dep \<subseteq> {e}"
  with assms show "triggerEffects call P dep s = Returned s"
    by (rule triggerEffects_self)
next
  assume "case targetMap s t of
      None \<Rightarrow> True
    | Some m \<Rightarrow> set (union_deps (depStore s) (trigger_deps sh m t ty k nv ov)) \<subseteq> {e}"
  with assms show "trigger call sh P t ty k nv ov s = Returned s"
    by (auto simp: triggerEffects_self trigger_def split: option.splits)
qed

theorem self_notification_guard_witness:
  "activeEffect reader_state = Some 0 \<and>
   depStore reader_state 0 = [1, 0] \<and>
   notification_order reader_prog [1, 0] = [1, 0] \<and>
   others_keep_current (exec demo_shared reader_prog 9) reader_prog 0
     (notification_order reader_prog [1, 0]) reader_state \<and>
   triggerEffect (exec demo_shared reader_prog 9) reader_prog 0 reader_state
     = Returned reader_state \<and>
   triggerEffects (exec demo_shared reader_prog 9) reader_prog [1, 0] reader_state
     = notify_in_order (exec demo_shared reader_prog 9) reader_prog [1] reader_state \<and>
   userLog (outcome_state
     (exec demo_shared reader_prog 9 (Seq (Run 1) (Run 0)) init_state)) = [2, 1, 2] \<and>
   activeEffect selfwrite_state = Some 0 \<and>
   depStore selfwrite_state 0 = [0] \<and>
   trigger (exec demo_shared selfwrite_prog 9) demo_shared selfwrite_prog 2 SET (Str ''c'') None None
     selfwrite_state = Returned selfwrite_state \<and>
   userLog (outcome_state (exec demo_shared selfwrite_prog 9 (Run 0) init_state)) = [1]"
proof -
  have rcur: "activeEffect reader_state = Some 0"
    by code_simp
  have rstore: "depStore reader_state 0 = [1, 0]"
    by code_simp
  have order: "notification_order reader_prog [1, 0] = [1, 0]"
    by code_simp
  have keep: "others_keep_current (exec demo_shared reader_prog 9) reader_prog 0
     (notification_order reader_prog [1, 0]) reader_state"
    by code_simp
  have others: "filter (\<lambda>x. x \<noteq> 0) (notification_order reader_prog [1, 0]) = [1::nat]"
    by code_simp
  note rguard = self_notification_guard [OF rcur, where call = "exec demo_shared reader_prog 9"
      and P = reader_prog and dep = "[1, 0]"]
  from rguard have rone: "triggerEffect (exec demo_shared reader_prog 9) reader_prog 0
      reader_state = Returned reader_state"
    by (rule conjunct1)
  from rguard keep have "triggerEffects (exec demo_shared reader_prog 9) reader_prog [1, 0]
      reader_state = notify_in_order (exec demo_shared reader_prog 9) reader_prog
        (filter (\<lambda>x. x \<noteq> 0) (notification_order reader_prog [1, 0])) reader_state"
    by blast
  then have rpass: "triggerEffects (exec demo_shared reader_prog 9) reader_prog [1, 0]
      reader_state = notify_in_order (exec demo_shared reader_prog 9) reader_prog [1] reader_state"
    by (simp only: others)
  have rlog: "userLog (outcome_state
     (exec demo_shared reader_prog 9 (Seq (Run 1) (Run 0)) init_state)) = [2, 1, 2]"
    by code_simp
  have cur: "activeEffect selfwrite_state = Some 0"
    by (simp add: selfwrite_state_def track_def trackEffects_def init_state_def Let_def)
  have store: "depStore selfwrite_state 0 = [0]"
    by code_simp
  have only: "(case targetMap selfwrite_state 2 of
             None \<Rightarrow> True
           | Some m \<Rightarrow> set (union_deps (depStore selfwrite_state)
                (trigger_deps demo_shared m 2 SET (Str ''c'') None None)) \<subseteq> {0})"
    by code_simp
  have log: "userLog (outcome_state (exec demo_shared selfwrite_prog 9 (Run 0) init_state)) = [1]"
    by code_simp
  note guard = self_notification_guard [OF cur, where call = "exec demo_shared selfwrite_prog 9"
      and P = selfwrite_prog and dep = "[]" and t = 2 and sh = demo_shared and ty = SET
      and k = "Str ''c''" and nv = None and ov = None]
  from guard only have wr: "trigger (exec demo_shared selfwrite_prog 9) demo_shared
      selfwrite_prog 2 SET (Str ''c'') None None selfwrite_state = Returned selfwrite_state"
    by blast
  show ?thesis
    by (intro conjI rcur rstore order keep rone rpass rlog cur store wr log)
qed

section \<open>Running a node\<close>

lemma run_active:
  "active (effects s e) \<Longrightarrow>
   run call P e s =
     (case call (fn (P e)) (run_enter e s) of
        Returned s2 \<Rightarrow> run_finally call P e Returned s2
      | Thrown s2 \<Rightarrow> run_finally call P e Thrown s2
      | Diverged \<Rightarrow> Diverged)"
  by (simp add: run_def)

lemma run_enter_purged:
  assumes "subscriptions_cover s e"
  shows "e \<notin> set (depStore (run_enter e s) d)"
  using assms by (auto simp: subscriptions_cover_def)

text \<open>
  Claim C5. \<^verbatim>\<open>run\<close> on an active node \<open>e\<close> executes the computation in the state
  \<open>run_enter e s\<close>. Provided every set containing \<open>e\<close> is in the subscription list of \<open>e\<close>
  (which holds in every state the engine reaches, see \<open>subs_consistent_reachable\<close>), in
  that state the subscription list of \<open>e\<close> is empty, no set contains \<open>e\<close>, so no write
  whatever would notify \<open>e\<close>, and the membership of every other node is as before. What
  \<open>e\<close> is subscribed to after the run is what the run itself recorded.
\<close>

theorem rerun_discards_subscriptions:
  assumes "active (effects s e)" and "subscriptions_cover s e"
  shows "run call P e s =
           (case call (fn (P e)) (run_enter e s) of
              Returned s2 \<Rightarrow> run_finally call P e Returned s2
            | Thrown s2 \<Rightarrow> run_finally call P e Thrown s2
            | Diverged \<Rightarrow> Diverged) \<and>
         deps (effects (run_enter e s) e) = [] \<and>
         (\<forall>d. e \<notin> set (depStore (run_enter e s) d)) \<and>
         (\<forall>ds. e \<notin> set (union_deps (depStore (run_enter e s)) ds)) \<and>
         (\<forall>e' d. e' \<noteq> e \<longrightarrow>
            (e' \<in> set (depStore (run_enter e s) d)) = (e' \<in> set (depStore s d)))"
proof (intro conjI allI impI)
  show "run call P e s =
           (case call (fn (P e)) (run_enter e s) of
              Returned s2 \<Rightarrow> run_finally call P e Returned s2
            | Thrown s2 \<Rightarrow> run_finally call P e Thrown s2
            | Diverged \<Rightarrow> Diverged)"
    using assms(1) by (rule run_active)
next
  show "deps (effects (run_enter e s) e) = []"
    by simp
next
  fix d
  show "e \<notin> set (depStore (run_enter e s) d)"
    using assms(2) by (rule run_enter_purged)
next
  fix ds
  show "e \<notin> set (union_deps (depStore (run_enter e s)) ds)"
    using run_enter_purged [OF assms(2)] by (simp add: set_union_deps)
next
  fix e' d
  assume "e' \<noteq> e"
  then show "(e' \<in> set (depStore (run_enter e s) d)) = (e' \<in> set (depStore s d))"
    by simp
qed

theorem rerun_discards_subscriptions_witness:
  "active (effects branch_state 0) \<and> subscriptions_cover branch_state 0 \<and>
   key_map branch_state 2 (Str ''a'') = Some 1 \<and> depStore branch_state 1 = [0] \<and>
   deps (effects branch_state 0) = [0, 1] \<and>
   deps (effects (run_enter 0 branch_state) 0) = [] \<and>
   0 \<notin> set (depStore (run_enter 0 branch_state) 1) \<and>
   userLog branch_state = [1] \<and>
   deps (effects (outcome_state (exec demo_shared branch_prog 9
      (Trigger 2 SET (Str ''flag'') None None) branch_state)) 0) = [0, 2] \<and>
   userLog (outcome_state (exec demo_shared branch_prog 9
      (Trigger 2 SET (Str ''flag'') None None) branch_state)) = [1, 1] \<and>
   userLog (outcome_state (exec demo_shared branch_prog 9
      (Seq (Trigger 2 SET (Str ''flag'') None None) (Trigger 2 SET (Str ''a'') None None))
      branch_state)) = [1, 1]"
proof -
  have act: "active (effects branch_state 0)" by code_simp
  have "subs_consistent branch_state"
    unfolding branch_state_def by (rule subs_consistent_reachable)
  then have cover: "subscriptions_cover branch_state 0"
    by (simp add: subs_consistent_def)
  note inst = rerun_discards_subscriptions [OF act cover,
      where call = "exec demo_shared branch_prog 9" and P = branch_prog]
  from inst have empty: "deps (effects (run_enter 0 branch_state) 0) = []"
    by blast
  from inst have gone: "0 \<notin> set (depStore (run_enter 0 branch_state) 1)"
    by blast
  have k: "key_map branch_state 2 (Str ''a'') = Some 1" by code_simp
  have st: "depStore branch_state 1 = [0]" by code_simp
  have dp: "deps (effects branch_state 0) = [0, 1]" by code_simp
  have l0: "userLog branch_state = [1]" by code_simp
  have d1: "deps (effects (outcome_state (exec demo_shared branch_prog 9
      (Trigger 2 SET (Str ''flag'') None None) branch_state)) 0) = [0, 2]"
    by code_simp
  have l1: "userLog (outcome_state (exec demo_shared branch_prog 9
      (Trigger 2 SET (Str ''flag'') None None) branch_state)) = [1, 1]"
    by code_simp
  have l2: "userLog (outcome_state (exec demo_shared branch_prog 9
      (Seq (Trigger 2 SET (Str ''flag'') None None) (Trigger 2 SET (Str ''a'') None None))
      branch_state)) = [1, 1]"
    by code_simp
  show ?thesis
    by (intro conjI act cover k st dp empty gone l0 d1 l1 l2)
qed

section \<open>Restoring the current node\<close>

text \<open>
  Claim C6 (the code departs from it). Node \<open>0\<close> is current and node \<open>1\<close> is active; the
  computation of node \<open>1\<close> calls \<^verbatim>\<open>run\<close> of node \<open>1\<close> once. The nested \<^verbatim>\<open>run\<close> overwrites
  \<^verbatim>\<open>parent\<close> with node \<open>1\<close> and clears it on exit, so the outer \<^verbatim>\<open>finally\<close> block finds no parent:
  when \<^verbatim>\<open>run\<close> of node \<open>1\<close> returns, no node is current. In a whole run of node \<open>0\<close> the
  read of slot \<open>y\<close> after the call is therefore not recorded.
\<close>

theorem reentrant_run_loses_current_node:
  "activeEffect (run_enter 0 init_state) = Some 0 \<and>
   active (effects (run_enter 0 init_state) 1) \<and>
   is_returned (run (exec demo_shared reentrant_prog 9) reentrant_prog 1 (run_enter 0 init_state)) \<and>
   activeEffect (outcome_state
      (run (exec demo_shared reentrant_prog 9) reentrant_prog 1 (run_enter 0 init_state))) = None \<and>
   parent (effects (outcome_state
      (run (exec demo_shared reentrant_prog 9) reentrant_prog 1 (run_enter 0 init_state))) 1) = None \<and>
   is_returned (exec demo_shared reentrant_prog 9 (Run 0) init_state) \<and>
   userLog (outcome_state (exec demo_shared reentrant_prog 9 (Run 0) init_state)) = [2, 1, 0] \<and>
   deps (effects (outcome_state (exec demo_shared reentrant_prog 9 (Run 0) init_state)) 0) = [] \<and>
   key_map (outcome_state (exec demo_shared reentrant_prog 9 (Run 0) init_state)) 2 (Str ''y'') = None"
  by code_simp

text \<open>
  When the computation of an active node ends with the parent link of the node still
  holding the node that was current before, and no stop was deferred, \<^verbatim>\<open>run\<close> ends with
  that node current again and the parent link cleared.
\<close>

lemma run_restores_current:
  assumes "active (effects s e)" and "K = Returned \<or> K = Thrown"
    and "call (fn (P e)) (run_enter e s) = K sb"
    and "parent (effects sb e) = activeEffect s" and "\<not> deferStop (effects sb e)"
  shows "\<exists>s'. run call P e s = K s' \<and> activeEffect s' = activeEffect s \<and>
           parent (effects s' e) = None"
  using assms by (auto simp: run_def run_finally_def Let_def)

section \<open>Deferred stop\<close>







section \<open>Recording a read\<close>

text \<open>
  Claim C8. \<^verbatim>\<open>track(target, key)\<close> leaves the whole state unchanged unless tracking is
  enabled and there is a current node \<open>e\<close>. When both hold, the key map of the target is
  the existing one or a new empty one, the set for the key is the existing one or a newly
  allocated empty one, the map binds the key to that set, \<open>e\<close> is added to the set, the
  set is appended to the subscription list of \<open>e\<close>, and nothing else changes.
\<close>

theorem track_contract:
  "(\<not> (shouldTrack s \<and> activeEffect s \<noteq> None) \<longrightarrow> track t k s = s) \<and>
   (shouldTrack s \<and> activeEffect s = Some e \<longrightarrow>
      (let s' = track t k s;
           m0 = (case targetMap s t of None \<Rightarrow> Map.empty | Some m \<Rightarrow> m);
           d = (case m0 k of None \<Rightarrow> nextDep s | Some d0 \<Rightarrow> d0);
           old = (case m0 k of None \<Rightarrow> [] | Some d0 \<Rightarrow> depStore s d0)
       in targetMap s' = (targetMap s)(t \<mapsto> m0(k \<mapsto> d)) \<and>
          nextDep s' = (case m0 k of None \<Rightarrow> Suc (nextDep s) | Some d0 \<Rightarrow> nextDep s) \<and>
          depStore s' = (depStore s)(d := set_add e old) \<and>
          e \<in> set (depStore s' d) \<and>
          effects s' = (effects s)(e := (effects s e)\<lparr>deps := deps (effects s e) @ [d]\<rparr>) \<and>
          activeEffect s' = activeEffect s \<and> shouldTrack s' = shouldTrack s \<and>
          userLog s' = userLog s \<and> userFlags s' = userFlags s))"
proof (rule conjI)
  show "\<not> (shouldTrack s \<and> activeEffect s \<noteq> None) \<longrightarrow> track t k s = s"
    by (auto simp: track_def)
next
  show "shouldTrack s \<and> activeEffect s = Some e \<longrightarrow>
      (let s' = track t k s;
           m0 = (case targetMap s t of None \<Rightarrow> Map.empty | Some m \<Rightarrow> m);
           d = (case m0 k of None \<Rightarrow> nextDep s | Some d0 \<Rightarrow> d0);
           old = (case m0 k of None \<Rightarrow> [] | Some d0 \<Rightarrow> depStore s d0)
       in targetMap s' = (targetMap s)(t \<mapsto> m0(k \<mapsto> d)) \<and>
          nextDep s' = (case m0 k of None \<Rightarrow> Suc (nextDep s) | Some d0 \<Rightarrow> nextDep s) \<and>
          depStore s' = (depStore s)(d := set_add e old) \<and>
          e \<in> set (depStore s' d) \<and>
          effects s' = (effects s)(e := (effects s e)\<lparr>deps := deps (effects s e) @ [d]\<rparr>) \<and>
          activeEffect s' = activeEffect s \<and> shouldTrack s' = shouldTrack s \<and>
          userLog s' = userLog s \<and> userFlags s' = userFlags s)"
    by (auto simp: track_def trackEffects_def upd_effect_def set_add_def Let_def fun_eq_iff
        split: option.splits)
qed

theorem track_contract_witness:
  "shouldTrack (run_enter 0 init_state) \<and> activeEffect (run_enter 0 init_state) = Some 0 \<and>
   depStore (track 2 (Str ''a'') (run_enter 0 init_state)) 0 = [0] \<and>
   deps (effects (track 2 (Str ''a'') (run_enter 0 init_state)) 0) = [0] \<and>
   \<not> shouldTrack (pauseTracking (run_enter 0 init_state)) \<and>
   track 2 (Str ''a'') (pauseTracking (run_enter 0 init_state)) = pauseTracking (run_enter 0 init_state)"
  using track_contract [of "run_enter 0 init_state" 2 "Str ''a''" 0]
    track_contract [of "pauseTracking (run_enter 0 init_state)" 2 "Str ''a''" 0]
  by (simp add: Let_def init_state_def pauseTracking_def set_add_def)

section \<open>Resolution of the affected sets\<close>

lemma trigger_deps_shape:
  "\<exists>mid. trigger_deps sh m t ty k nv ov =
     m k # mid @
       (if ty = ADD then
          (if isArray sh t \<and> isIntegerKey sh k then [m (Str ''length'')]
           else if isObject sh t then [m ITERATE_KEY]
           else [])
        else [])"
  by (simp add: trigger_deps_def)

lemma trigger_deps_exact_key: "m k \<in> set (trigger_deps sh m t ty k nv ov)"
proof -
  obtain mid where "trigger_deps sh m t ty k nv ov =
     m k # mid @
       (if ty = ADD then
          (if isArray sh t \<and> isIntegerKey sh k then [m (Str ''length'')]
           else if isObject sh t then [m ITERATE_KEY]
           else [])
        else [])"
    using trigger_deps_shape by blast
  then show ?thesis by simp
qed

lemma trigger_deps_add_length:
  assumes "isArray sh t \<and> isIntegerKey sh k"
  shows "m (Str ''length'') \<in> set (trigger_deps sh m t ADD k nv ov)"
proof -
  obtain mid where "trigger_deps sh m t ADD k nv ov =
     m k # mid @
       (if ADD = ADD then
          (if isArray sh t \<and> isIntegerKey sh k then [m (Str ''length'')]
           else if isObject sh t then [m ITERATE_KEY]
           else [])
        else [])"
    using trigger_deps_shape by blast
  with assms show ?thesis by simp
qed

lemma trigger_deps_add_iterate:
  assumes "\<not> (isArray sh t \<and> isIntegerKey sh k) \<and> isObject sh t"
  shows "m ITERATE_KEY \<in> set (trigger_deps sh m t ADD k nv ov)"
proof -
  obtain mid where "trigger_deps sh m t ADD k nv ov =
     m k # mid @
       (if ADD = ADD then
          (if isArray sh t \<and> isIntegerKey sh k then [m (Str ''length'')]
           else if isObject sh t then [m ITERATE_KEY]
           else [])
        else [])"
    using trigger_deps_shape by blast
  with assms show ?thesis by auto
qed

text \<open>
  Claim C9. For an addition, the array \<^verbatim>\<open>deps\<close> of \<^verbatim>\<open>trigger\<close> always holds the set of the
  exact key; it holds the set of \<^verbatim>\<open>"length"\<close> when the target is an array and the key an
  integer key, and otherwise the set of the iteration key when the target is an object.
  Every member of a set in \<^verbatim>\<open>deps\<close> is in the collection handed to \<^verbatim>\<open>triggerEffects\<close>, and
  that collection has no other members.
\<close>

theorem addition_fan_out:
  "trigger call sh P t ADD k nv ov s =
     (case targetMap s t of
        None \<Rightarrow> Returned s
      | Some m \<Rightarrow>
          triggerEffects call P
            (union_deps (depStore s) (trigger_deps sh m t ADD k nv ov)) s) \<and>
   m k \<in> set (trigger_deps sh m t ADD k nv ov) \<and>
   (isArray sh t \<and> isIntegerKey sh k \<longrightarrow>
      m (Str ''length'') \<in> set (trigger_deps sh m t ADD k nv ov)) \<and>
   (\<not> (isArray sh t \<and> isIntegerKey sh k) \<and> isObject sh t \<longrightarrow>
      m ITERATE_KEY \<in> set (trigger_deps sh m t ADD k nv ov)) \<and>
   (\<forall>d. Some d \<in> set (trigger_deps sh m t ADD k nv ov) \<longrightarrow>
      set (depStore s d) \<subseteq> set (union_deps (depStore s) (trigger_deps sh m t ADD k nv ov))) \<and>
   (\<forall>x. x \<in> set (union_deps (depStore s) (trigger_deps sh m t ADD k nv ov)) \<longrightarrow>
      (\<exists>d. Some d \<in> set (trigger_deps sh m t ADD k nv ov) \<and> x \<in> set (depStore s d)))"
proof (intro conjI)
  show "trigger call sh P t ADD k nv ov s =
     (case targetMap s t of
        None \<Rightarrow> Returned s
      | Some m \<Rightarrow>
          triggerEffects call P
            (union_deps (depStore s) (trigger_deps sh m t ADD k nv ov)) s)"
    by (simp add: trigger_def)
next
  show "m k \<in> set (trigger_deps sh m t ADD k nv ov)"
    by (rule trigger_deps_exact_key)
next
  show "isArray sh t \<and> isIntegerKey sh k \<longrightarrow>
      m (Str ''length'') \<in> set (trigger_deps sh m t ADD k nv ov)"
    using trigger_deps_add_length by blast
next
  show "\<not> (isArray sh t \<and> isIntegerKey sh k) \<and> isObject sh t \<longrightarrow>
      m ITERATE_KEY \<in> set (trigger_deps sh m t ADD k nv ov)"
    using trigger_deps_add_iterate by blast
next
  show "\<forall>d. Some d \<in> set (trigger_deps sh m t ADD k nv ov) \<longrightarrow>
      set (depStore s d) \<subseteq> set (union_deps (depStore s) (trigger_deps sh m t ADD k nv ov))"
    unfolding set_union_deps by blast
next
  show "\<forall>x. x \<in> set (union_deps (depStore s) (trigger_deps sh m t ADD k nv ov)) \<longrightarrow>
      (\<exists>d. Some d \<in> set (trigger_deps sh m t ADD k nv ov) \<and> x \<in> set (depStore s d))"
    unfolding set_union_deps by blast
qed

theorem addition_fan_out_witness:
  "isArray demo_shared 1 \<and> isIntegerKey demo_shared (Str ''7'') \<and>
   key_map fanout_state 1 (Str ''length'')
     \<in> set (trigger_deps demo_shared (key_map fanout_state 1) 1 ADD (Str ''7'') None None) \<and>
   key_map fanout_state 1 (Str ''length'') = Some 0 \<and> depStore fanout_state 0 = [0] \<and>
   userLog (outcome_state (exec demo_shared fanout_prog 9
      (Trigger 1 ADD (Str ''7'') None None) fanout_state)) = [0, 1, 2, 0] \<and>
   \<not> (isArray demo_shared 2 \<and> isIntegerKey demo_shared (Str ''foo'')) \<and> isObject demo_shared 2 \<and>
   key_map fanout_state 2 ITERATE_KEY
     \<in> set (trigger_deps demo_shared (key_map fanout_state 2) 2 ADD (Str ''foo'') None None) \<and>
   key_map fanout_state 2 ITERATE_KEY = Some 1 \<and> depStore fanout_state 1 = [1] \<and>
   userLog (outcome_state (exec demo_shared fanout_prog 9
      (Trigger 2 ADD (Str ''foo'') None None) fanout_state)) = [0, 1, 2, 1]"
proof -
  have arr: "isArray demo_shared 1 \<and> isIntegerKey demo_shared (Str ''7'')"
    by code_simp
  have obj: "\<not> (isArray demo_shared 2 \<and> isIntegerKey demo_shared (Str ''foo'')) \<and>
      isObject demo_shared 2"
    by code_simp
  note inst1 = addition_fan_out [where sh = demo_shared and t = 1 and k = "Str ''7''"
      and m = "key_map fanout_state 1" and nv = None and ov = None]
  note inst2 = addition_fan_out [where sh = demo_shared and t = 2 and k = "Str ''foo''"
      and m = "key_map fanout_state 2" and nv = None and ov = None]
  from inst1 arr have len: "key_map fanout_state 1 (Str ''length'')
     \<in> set (trigger_deps demo_shared (key_map fanout_state 1) 1 ADD (Str ''7'') None None)"
    by blast
  from inst2 obj have iter: "key_map fanout_state 2 ITERATE_KEY
     \<in> set (trigger_deps demo_shared (key_map fanout_state 2) 2 ADD (Str ''foo'') None None)"
    by blast
  have s1: "key_map fanout_state 1 (Str ''length'') = Some 0" by code_simp
  have s2: "depStore fanout_state 0 = [0]" by code_simp
  have s3: "key_map fanout_state 2 ITERATE_KEY = Some 1" by code_simp
  have s4: "depStore fanout_state 1 = [1]" by code_simp
  have l1: "userLog (outcome_state (exec demo_shared fanout_prog 9
      (Trigger 1 ADD (Str ''7'') None None) fanout_state)) = [0, 1, 2, 0]"
    by code_simp
  have l2: "userLog (outcome_state (exec demo_shared fanout_prog 9
      (Trigger 2 ADD (Str ''foo'') None None) fanout_state)) = [0, 1, 2, 1]"
    by code_simp
  from arr obj len iter s1 s2 s3 s4 l1 l2 show ?thesis
    by blast
qed

section \<open>The tracking flag across a run\<close>

lemma run_enter_flag: "run_enter e (s\<lparr>shouldTrack := b\<rparr>) = run_enter e s"
  by (simp add: run_enter_def cleanupEffect_def upd_effect_def)

lemma run_forgets_flag:
  "active (effects s e) \<Longrightarrow> run call P e (s\<lparr>shouldTrack := b\<rparr>) = run call P e s"
  by (simp add: run_def run_enter_flag)

lemma run_finally_flag:
  assumes "K = Returned \<or> K = Thrown" and "deferStop (effects sb e) \<longrightarrow> onStop (P e) = None"
  shows "\<exists>s'. run_finally call P e K sb = K s' \<and> shouldTrack s' = shouldTrack sb"
  using assms by (auto simp: run_finally_def stop_def Let_def)

text \<open>
  Claim C10 as stated fails: after \<^verbatim>\<open>run\<close> returns tracking need not be enabled, since the
  computation itself may pause it. Node \<open>0\<close> of \<open>pausing_prog\<close> is active and its
  computation calls \<^verbatim>\<open>pauseTracking\<close>; tracking is enabled before the run and disabled
  after it.
\<close>

theorem run_enables_tracking_counterexample:
  "active (effects init_state 0) \<and> shouldTrack init_state \<and>
   is_returned (run (exec demo_shared pausing_prog 9) pausing_prog 0 init_state) \<and>
   \<not> shouldTrack (outcome_state (run (exec demo_shared pausing_prog 9) pausing_prog 0 init_state))"
  by code_simp

text \<open>
  Claim C10 as amended. \<^verbatim>\<open>run\<close> on an active node gives the same outcome whatever the
  tracking flag was before the call: the flag is set before the computation executes and
  its previous value is never restored. \<^verbatim>\<open>run\<close> does not assign the flag again: when the
  computation ends and no on-stop callback is invoked by a deferred stop, the flag after
  \<^verbatim>\<open>run\<close> is the flag the computation left, which is \<open>True\<close> whenever the computation did
  not change it.
\<close>

theorem run_enables_tracking:
  assumes "active (effects s e)"
  shows "run call P e (s\<lparr>shouldTrack := b\<rparr>) = run call P e s \<and>
         shouldTrack (run_enter e s) \<and>
         ((K = Returned \<or> K = Thrown) \<and> call (fn (P e)) (run_enter e s) = K sb \<and>
          (deferStop (effects sb e) \<longrightarrow> onStop (P e) = None) \<longrightarrow>
            (\<exists>s'. run call P e s = K s' \<and> shouldTrack s' = shouldTrack sb))"
proof (intro conjI impI)
  show "run call P e (s\<lparr>shouldTrack := b\<rparr>) = run call P e s"
    using assms by (rule run_forgets_flag)
next
  show "shouldTrack (run_enter e s)"
    by simp
next
  assume a: "(K = Returned \<or> K = Thrown) \<and> call (fn (P e)) (run_enter e s) = K sb \<and>
          (deferStop (effects sb e) \<longrightarrow> onStop (P e) = None)"
  then have "run call P e s = run_finally call P e K sb"
    using assms by (auto simp: run_def)
  moreover from a have "\<exists>s'. run_finally call P e K sb = K s' \<and> shouldTrack s' = shouldTrack sb"
    using run_finally_flag by blast
  ultimately show "\<exists>s'. run call P e s = K s' \<and> shouldTrack s' = shouldTrack sb"
    by simp
qed

theorem run_enables_tracking_witness:
  "active (effects init_state 1) \<and>
   \<not> shouldTrack (pauseTracking init_state) \<and>
   run (exec demo_shared pausing_prog 9) pausing_prog 1 (pauseTracking init_state)
     = run (exec demo_shared pausing_prog 9) pausing_prog 1 init_state \<and>
   is_returned (run (exec demo_shared pausing_prog 9) pausing_prog 1 (pauseTracking init_state)) \<and>
   shouldTrack (outcome_state
     (run (exec demo_shared pausing_prog 9) pausing_prog 1 (pauseTracking init_state))) \<and>
   is_returned (exec demo_shared pausing_prog 9 (Run 2) init_state) \<and>
   key_map (outcome_state (exec demo_shared pausing_prog 9 (Run 2) init_state)) 2 (Str ''b'')
     = Some 1 \<and>
   deps (effects (outcome_state (exec demo_shared pausing_prog 9 (Run 2) init_state)) 2) = [1] \<and>
   exec demo_shared pausing_prog 9 (fn (pausing_prog 1)) (run_enter 1 init_state)
     = Returned pausing_body \<and>
   onStop (pausing_prog 1) = None \<and> shouldTrack pausing_body \<and>
   (\<exists>s'. run (exec demo_shared pausing_prog 9) pausing_prog 1 init_state = Returned s' \<and>
      shouldTrack s' = shouldTrack pausing_body)"
proof -
  have act: "active (effects init_state 1)"
    by (simp add: init_state_def)
  have off: "\<not> shouldTrack (pauseTracking init_state)"
    by (simp add: pauseTracking_def)
  from run_enables_tracking [OF act, where call = "exec demo_shared pausing_prog 9"
      and P = pausing_prog and b = False]
  have "run (exec demo_shared pausing_prog 9) pausing_prog 1 (init_state\<lparr>shouldTrack := False\<rparr>)
     = run (exec demo_shared pausing_prog 9) pausing_prog 1 init_state"
    by blast
  then have same: "run (exec demo_shared pausing_prog 9) pausing_prog 1 (pauseTracking init_state)
     = run (exec demo_shared pausing_prog 9) pausing_prog 1 init_state"
    by (simp only: pauseTracking_def)
  have r1: "is_returned (run (exec demo_shared pausing_prog 9) pausing_prog 1
      (pauseTracking init_state))"
    by code_simp
  have r2: "shouldTrack (outcome_state
     (run (exec demo_shared pausing_prog 9) pausing_prog 1 (pauseTracking init_state)))"
    by code_simp
  have r3: "is_returned (exec demo_shared pausing_prog 9 (Run 2) init_state)"
    by code_simp
  have r4: "key_map (outcome_state (exec demo_shared pausing_prog 9 (Run 2) init_state)) 2
      (Str ''b'') = Some 1"
    by code_simp
  have r5: "deps (effects (outcome_state (exec demo_shared pausing_prog 9 (Run 2) init_state)) 2)
      = [1]"
    by code_simp
  have "is_returned
      (exec demo_shared pausing_prog 9 (fn (pausing_prog 1)) (run_enter 1 init_state))"
    by code_simp
  then have body: "exec demo_shared pausing_prog 9 (fn (pausing_prog 1)) (run_enter 1 init_state)
     = Returned pausing_body"
    unfolding pausing_body_def by (rule is_returned_outcome)
  have cb: "onStop (pausing_prog 1) = None"
    by (simp add: pausing_prog_def)
  have on: "shouldTrack pausing_body"
    by code_simp
  have hyp: "(Returned = Returned \<or> Returned = Thrown) \<and>
      exec demo_shared pausing_prog 9 (fn (pausing_prog 1)) (run_enter 1 init_state)
        = Returned pausing_body \<and>
      (deferStop (effects pausing_body 1) \<longrightarrow> onStop (pausing_prog 1) = None)"
    using body cb by blast
  from run_enables_tracking [OF act, where call = "exec demo_shared pausing_prog 9"
      and P = pausing_prog and K = Returned and sb = pausing_body] hyp
  have fin: "\<exists>s'. run (exec demo_shared pausing_prog 9) pausing_prog 1 init_state = Returned s' \<and>
      shouldTrack s' = shouldTrack pausing_body"
    by blast
  show ?thesis
    by (intro conjI act off same r1 r2 r3 r4 r5 body cb on fin)
qed

end
